theory Spec2Isabelle
  imports Complex_Main "HOL-Library.Multiset" "HOL-Library.Word"
begin

unbundle bit_operations_syntax

section \<open>Stage 2: the chain assembler (deschrambler.cpp)\<close>

subsection \<open>Edges\<close>

text \<open>
  The class \<open>Edge\<close>: two block ids, two directions and three doubles. The ids and
  directions are C++ \<open>int\<close>s; the assembler only compares and negates them, so they are
  modelled as \<open>int\<close>. The doubles are only copied and compared, and are modelled as
  \<open>real\<close>.
\<close>

record Edge =
  bid1 :: int
  bid2 :: int
  dir1 :: int
  dir2 :: int
  score1 :: real
  score2 :: real
  weight :: real

text \<open>The constructor \<open>Edge(_bid1, _dir1, _bid2, _dir2)\<close>: the three doubles start at 0.\<close>

definition mkEdge :: "int \<Rightarrow> int \<Rightarrow> int \<Rightarrow> int \<Rightarrow> Edge" where
  "mkEdge b1 d1 b2 d2 =
     \<lparr>bid1 = b1, bid2 = b2, dir1 = d1, dir2 = d2, score1 = 0, score2 = 0, weight = 0\<rparr>"

text \<open>
  \<open>Edge::reverse\<close>: swap the ids, swap the directions, then flip each direction,
  where every direction other than 1 flips to 1.
\<close>

definition reverse :: "Edge \<Rightarrow> Edge" where
  "reverse e =
     e\<lparr>bid1 := bid2 e, bid2 := bid1 e,
       dir1 := (if dir2 e = 1 then - 1 else 1),
       dir2 := (if dir1 e = 1 then - 1 else 1)\<rparr>"

datatype result = SUCCESS | FAIL | CYCLE

type_synonym used = "int \<rightharpoonup> int"

subsection \<open>insertEdge\<close>

text \<open>
  \<open>insertEdge(le, e, mapUsed)\<close> takes its three arguments by reference; the model
  returns the result code together with the three objects as the call leaves them.
  \<open>le.front()\<close> and \<open>le.back()\<close> of an empty list are undefined behaviour: the model
  returns \<open>None\<close> there. The references \<open>fe\<close> and \<open>be\<close> keep denoting the old first
  and last edge after \<open>push_front\<close> and \<open>push_back\<close>.
\<close>

definition insertEdge ::
  "Edge list \<Rightarrow> Edge \<Rightarrow> used \<Rightarrow> (result \<times> Edge list \<times> Edge \<times> used) option" where
  "insertEdge le e mapUsed =
     (if le = [] then None
      else
        let fe = hd le; be = last le in
        if bid1 fe = bid1 e \<and> dir1 fe \<noteq> dir1 e then
          (if bid2 be = bid2 e \<and> dir2 be \<noteq> dir2 e then Some (CYCLE, le, e, mapUsed)
           else
             let e' = reverse e;
                 m1 = mapUsed(bid1 fe \<mapsto> 1);
                 m2 = m1(- bid1 fe \<mapsto> 1);
                 m3 = (if dir1 e' = 1 then m2(- bid1 e' \<mapsto> 1) else m2(bid1 e' \<mapsto> 1))
             in Some (SUCCESS, e' # le, e', m3))
        else if bid1 fe = bid2 e \<and> dir1 fe = dir2 e then
          (if bid1 fe = 0 then Some (FAIL, le, e, mapUsed)
           else if bid2 be = bid1 e \<and> dir2 be = dir1 e then Some (CYCLE, le, e, mapUsed)
           else
             let m1 = mapUsed(bid1 fe \<mapsto> 1);
                 m2 = m1(- bid1 fe \<mapsto> 1);
                 m3 = (if dir1 e = 1 then m2(- bid1 e \<mapsto> 1) else m2(bid1 e \<mapsto> 1))
             in Some (SUCCESS, e # le, e, m3))
        else if bid2 be = bid1 e \<and> dir2 be = dir1 e then
          (if bid2 be = 0 then Some (FAIL, le, e, mapUsed)
           else if bid1 fe = bid2 e \<and> dir1 fe = dir2 e then Some (CYCLE, le, e, mapUsed)
           else
             let m1 = mapUsed(bid2 be \<mapsto> 1);
                 m2 = m1(- bid2 be \<mapsto> 1);
                 m3 = (if dir2 e = 1 then m2(bid2 e \<mapsto> 1) else m2(- bid2 e \<mapsto> 1))
             in Some (SUCCESS, le @ [e], e, m3))
        else if bid2 be = bid2 e \<and> dir2 be \<noteq> dir2 e then
          (if bid1 fe = bid1 e \<and> dir1 fe \<noteq> dir1 e then Some (CYCLE, le, e, mapUsed)
           else
             let e' = reverse e;
                 m1 = mapUsed(bid2 be \<mapsto> 1);
                 m2 = m1(- bid2 be \<mapsto> 1);
                 m3 = (if dir2 e' = 1 then m2(bid2 e' \<mapsto> 1) else m2(- bid2 e' \<mapsto> 1))
             in Some (SUCCESS, le @ [e'], e', m3))
        else Some (FAIL, le, e, mapUsed))"

subsection \<open>The chain classes\<close>

text \<open>
  \<open>mapClasses\<close> is a \<open>std::map<int, list<Edge> >\<close>: a finite map iterated in increasing
  key order. It is modelled as an association list kept in increasing key order, with
  \<open>find\<close> as \<open>map_of\<close>, \<open>m[k] = v\<close> as \<open>assign\<close> and \<open>erase\<close> by key.
\<close>

type_synonym classes = "(int \<times> Edge list) list"

fun assign :: "int \<Rightarrow> 'v \<Rightarrow> (int \<times> 'v) list \<Rightarrow> (int \<times> 'v) list" where
  "assign k v [] = [(k, v)]"
| "assign k v ((k', v') # kvs) =
     (if k < k' then (k, v) # (k', v') # kvs
      else if k = k' then (k, v) # kvs
      else (k', v') # assign k v kvs)"

definition erase :: "int \<Rightarrow> (int \<times> 'v) list \<Rightarrow> (int \<times> 'v) list" where
  "erase k kvs = filter (\<lambda>p. fst p \<noteq> k) kvs"

subsection \<open>mergeLists\<close>

text \<open>
  One iteration of the loop \<open>for (int j = 1; j <= clscnt; j++)\<close> of \<open>mergeLists\<close>.
  \<open>le1\<close> is the caller's chain, the list stored under \<open>clsid\<close>; the loop never looks
  that key up, so the model carries \<open>le1\<close> beside the map. The four inner loops push
  the edges of \<open>le2\<close> one by one onto \<open>le1\<close> and are written as the folds they are.
\<close>

definition mergeStep :: "int \<Rightarrow> int \<Rightarrow> Edge list \<times> classes \<Rightarrow> (Edge list \<times> classes) option" where
  "mergeStep clsid j s =
     (let le1 = fst s; mapClasses = snd s in
      if j = clsid then Some s
      else
        case map_of mapClasses j of
          None \<Rightarrow> Some s
        | Some le2 \<Rightarrow>
            if le1 = [] \<or> le2 = [] then None
            else
              let e1front = hd le1; e1back = last le1;
                  e2front = hd le2; e2back = last le2 in
              if bid1 e1front = bid1 e2front \<and> dir1 e1front \<noteq> dir1 e2front then
                (if bid2 e1back = 0 \<or> bid2 e2back = 0 \<or> bid2 e1back \<noteq> bid2 e2back
                 then Some (fold (\<lambda>e2 l. reverse e2 # l) le2 le1, erase j mapClasses)
                 else Some s)
              else if bid1 e1front = bid2 e2back \<and> dir1 e1front = dir2 e2back then
                (if bid1 e1front \<noteq> 0 \<and>
                    (bid2 e1back = 0 \<or> bid1 e2front = 0 \<or> bid2 e1back \<noteq> bid1 e2front)
                 then Some (fold (\<lambda>e2 l. e2 # l) (rev le2) le1, erase j mapClasses)
                 else Some s)
              else if bid2 e1back = bid1 e2front \<and> dir2 e1back = dir1 e2front then
                (if bid2 e1back \<noteq> 0 \<and>
                    (bid1 e1front = 0 \<or> bid2 e2back = 0 \<or> bid1 e1front \<noteq> bid2 e2back)
                 then Some (fold (\<lambda>e2 l. l @ [e2]) le2 le1, erase j mapClasses)
                 else Some s)
              else if bid2 e1back = bid2 e2back \<and> dir2 e1back \<noteq> dir2 e2back then
                (if bid1 e1front = 0 \<or> bid1 e2front = 0 \<or> bid1 e1front \<noteq> bid1 e2front
                 then Some (fold (\<lambda>e2 l. l @ [reverse e2]) (rev le2) le1, erase j mapClasses)
                 else Some s)
              else Some s)"

fun mergeLoop :: "int list \<Rightarrow> int \<Rightarrow> Edge list \<times> classes \<Rightarrow> (Edge list \<times> classes) option" where
  "mergeLoop [] clsid s = Some s"
| "mergeLoop (j # js) clsid s =
     (case mergeStep clsid j s of None \<Rightarrow> None | Some s' \<Rightarrow> mergeLoop js clsid s')"

definition mergeLists ::
  "int \<Rightarrow> int \<Rightarrow> Edge list \<Rightarrow> classes \<Rightarrow> (Edge list \<times> classes) option" where
  "mergeLists clscnt clsid le mapClasses = mergeLoop [1..clscnt] clsid (le, mapClasses)"

subsection \<open>The greedy loop of main\<close>

text \<open>
  The loop over \<open>mapClasses\<close> in \<open>main\<close>: the entries already visited, the entries
  from the iterator on, the edge and the registry. The result says whether \<open>found\<close> was
  set. After a \<open>SUCCESS\<close> the chain is merged with the other classes and the loop is
  left; after a \<open>CYCLE\<close> the loop is left as well.
\<close>

fun tryChains ::
  "int \<Rightarrow> classes \<Rightarrow> classes \<Rightarrow> Edge \<Rightarrow> used \<Rightarrow> (bool \<times> classes \<times> Edge \<times> used) option" where
  "tryChains clscnt seen [] e mapUsed = Some (False, seen, e, mapUsed)"
| "tryChains clscnt seen ((c, le) # rest) e mapUsed =
     (case insertEdge le e mapUsed of
        None \<Rightarrow> None
      | Some (res, le', e', mapUsed') \<Rightarrow>
          if res = SUCCESS then
            (case mergeLists clscnt c le' (seen @ (c, le') # rest) of
               None \<Rightarrow> None
             | Some (le'', mapClasses') \<Rightarrow> Some (True, assign c le'' mapClasses', e', mapUsed'))
          else if res = CYCLE then Some (True, seen @ (c, le') # rest, e', mapUsed')
          else tryChains clscnt (seen @ [(c, le')]) rest e' mapUsed')"

record assembler =
  mapClasses :: classes
  mapUsed :: used
  clscnt :: int

definition init_assembler :: assembler where
  "init_assembler = \<lparr>mapClasses = [], mapUsed = Map.empty, clscnt = 0\<rparr>"

text \<open>
  \<open>mapAdjScores\<close> and \<open>mapWeights\<close> are \<open>std::map<Edge, double>\<close>; \<open>Edge::operator<\<close>
  compares \<open>bid1\<close>, \<open>dir1\<close>, \<open>bid2\<close>, \<open>dir2\<close> lexicographically, so a key is that
  quadruple.
\<close>

type_synonym ekey = "int \<times> int \<times> int \<times> int"
type_synonym scores = "ekey \<rightharpoonup> real"

definition key_of :: "Edge \<Rightarrow> ekey" where
  "key_of e = (bid1 e, dir1 e, bid2 e, dir2 e)"

text \<open>
  The body of the loop \<open>for (int i = 0; i < vecEdges.size(); i++)\<close>. It starts by
  copying the pair's edge, setting its weight and looking its score up.
\<close>

definition prepareEdge :: "scores \<Rightarrow> Edge \<times> real \<Rightarrow> Edge" where
  "prepareEdge mapAdjScores p =
     (let e = (fst p)\<lparr>weight := snd p\<rparr> in
      case mapAdjScores (key_of e) of None \<Rightarrow> e | Some sc \<Rightarrow> e\<lparr>score1 := sc\<rparr>)"

definition processEdge :: "real \<Rightarrow> scores \<Rightarrow> assembler \<Rightarrow> Edge \<times> real \<Rightarrow> assembler option" where
  "processEdge gMIN_WEIGHT mapAdjScores st p =
     (let e = prepareEdge mapAdjScores p in
        if weight e < gMIN_WEIGHT then Some st
        else if bid1 e \<noteq> 0 \<and>
                (if dir1 e = 1 then mapUsed st (- bid1 e) else mapUsed st (bid1 e)) \<noteq> None
        then Some st
        else if bid2 e \<noteq> 0 \<and>
                (if dir2 e = 1 then mapUsed st (bid2 e) else mapUsed st (- bid2 e)) \<noteq> None
        then Some st
        else
          case tryChains (clscnt st) [] (mapClasses st) e (mapUsed st) of
            None \<Rightarrow> None
          | Some (found, mc, e', mu) \<Rightarrow>
              if found then Some (st\<lparr>mapClasses := mc, mapUsed := mu\<rparr>)
              else
                let n = clscnt st + 1;
                    mu1 = (if bid1 e' \<noteq> 0
                           then (if dir1 e' = 1 then mu(- bid1 e' \<mapsto> 1) else mu(bid1 e' \<mapsto> 1))
                           else mu);
                    mu2 = (if bid2 e' \<noteq> 0
                           then (if dir2 e' = 1 then mu1(bid2 e' \<mapsto> 1) else mu1(- bid2 e' \<mapsto> 1))
                           else mu1)
                in Some \<lparr>mapClasses = assign n [e'] mc, mapUsed = mu2, clscnt = n\<rparr>)"

fun greedy :: "real \<Rightarrow> scores \<Rightarrow> assembler \<Rightarrow> (Edge \<times> real) list \<Rightarrow> assembler option" where
  "greedy gMIN_WEIGHT mapAdjScores st [] = Some st"
| "greedy gMIN_WEIGHT mapAdjScores st (p # ps) =
     (case processEdge gMIN_WEIGHT mapAdjScores st p of
        None \<Rightarrow> None
      | Some st' \<Rightarrow> greedy gMIN_WEIGHT mapAdjScores st' ps)"

subsection \<open>Reading the scores and computing the weights\<close>

text \<open>
  The input file is a sequence of records \<open>bid1 bid2 adjscore\<close>. Each record stores its
  score under the edge and under the reversed edge, and raises \<open>numblocks\<close> to the
  largest absolute id seen.
\<close>

definition readRecord :: "scores \<times> int \<Rightarrow> int \<times> int \<times> real \<Rightarrow> scores \<times> int" where
  "readRecord s r =
     (let mapAdjScores = fst s; numblocks = snd s;
          b1 = fst r; b2 = fst (snd r); adjscore = snd (snd r);
          bindex1 = \<bar>b1\<bar>; bindex2 = \<bar>b2\<bar>;
          intdir1 = (if b1 < 0 then - 1 else 1);
          intdir2 = (if b2 < 0 then - 1 else 1);
          m1 = mapAdjScores((bindex1, intdir1, bindex2, intdir2) \<mapsto> adjscore);
          m2 = m1((bindex2, - intdir2, bindex1, - intdir1) \<mapsto> adjscore);
          n1 = (if \<bar>b1\<bar> > numblocks then \<bar>b1\<bar> else numblocks);
          n2 = (if \<bar>b2\<bar> > n1 then \<bar>b2\<bar> else n1)
      in (m2, n2))"

definition readScores :: "(int \<times> int \<times> real) list \<Rightarrow> scores \<times> int" where
  "readScores rs = foldl readRecord (Map.empty, 0) rs"

definition compute_weight :: "int \<Rightarrow> int \<Rightarrow> int \<Rightarrow> int \<Rightarrow> scores \<Rightarrow> real" where
  "compute_weight b1 d1 b2 d2 mapscore1 =
     (case mapscore1 (b1, d1, b2, d2) of None \<Rightarrow> 0.0 | Some adjscore \<Rightarrow> adjscore)"

text \<open>
  \<open>vecEdges\<close> is filled from \<open>mapWeights.begin()\<close> to \<open>mapWeights.end()\<close>, that is in
  increasing key order, whatever the order of the insertions was. The keys inserted are
  the \<open>(i, d1, j, d2)\<close> with \<open>0 \<le> i, j \<le> numblocks\<close>, \<open>i \<noteq> j\<close>, both directions
  \<open>1\<close> or \<open>-1\<close>, and a weight above 0; each is inserted once. The model enumerates
  them in key order.
\<close>

definition vecEdges :: "scores \<Rightarrow> int \<Rightarrow> (Edge \<times> real) list" where
  "vecEdges mapAdjScores numblocks =
     concat (map (\<lambda>i. concat (map (\<lambda>d1. concat (map (\<lambda>j. concat (map (\<lambda>d2.
       if i = j then []
       else
         let weight = compute_weight i d1 j d2 mapAdjScores in
         if weight > 0.0 then [(mkEdge i d1 j d2, weight)] else [])
       [- 1, 1])) [0..numblocks])) [- 1, 1])) [0..numblocks])"

text \<open>
  \<open>cmp\<close> orders two entries by weight alone. \<open>std::sort\<close> promises a permutation of
  its input in which no later entry is \<open>cmp\<close>-ahead of an earlier one, and nothing about
  the order of entries that \<open>cmp\<close> does not separate.
\<close>

definition cmp :: "Edge \<times> real \<Rightarrow> Edge \<times> real \<Rightarrow> bool" where
  "cmp p1 p2 = (snd p1 > snd p2)"

definition sort_post :: "(Edge \<times> real) list \<Rightarrow> (Edge \<times> real) list \<Rightarrow> bool" where
  "sort_post v v' = (mset v' = mset v \<and> sorted_wrt (\<lambda>p q. \<not> cmp q p) v')"

text \<open>\<open>main\<close> from the parsed records to the final classes, for a result \<open>v'\<close> of the sort.\<close>

definition main_c :: "real \<Rightarrow> (int \<times> int \<times> real) list \<Rightarrow> (Edge \<times> real) list \<Rightarrow> assembler option" where
  "main_c gMIN_WEIGHT rs v' =
     (let mapAdjScores = fst (readScores rs) in
      greedy gMIN_WEIGHT mapAdjScores init_assembler v')"

text \<open>
  \<open>main\<close> with the sort as a function \<open>srt\<close> of the vector: one run of the program does
  one sort, and the same sort on the same vector gives the same result.
\<close>

definition main_srt ::
  "((Edge \<times> real) list \<Rightarrow> (Edge \<times> real) list) \<Rightarrow> real \<Rightarrow> (int \<times> int \<times> real) list \<Rightarrow> assembler option" where
  "main_srt srt gMIN_WEIGHT rs =
     main_c gMIN_WEIGHT rs (srt (vecEdges (fst (readScores rs)) (snd (readScores rs))))"

text \<open>
  The order that the specification asks for: the two edges of every record, in the
  order of the records, sorted by descending weight by a sort that keeps entries of equal
  weight in their order. This definition follows the specification, not the code.
\<close>

definition record_edges :: "int \<times> int \<times> real \<Rightarrow> (Edge \<times> real) list" where
  "record_edges r =
     (let b1 = fst r; b2 = fst (snd r); adjscore = snd (snd r);
          intdir1 = (if b1 < 0 then - 1 else 1);
          intdir2 = (if b2 < 0 then - 1 else 1)
      in [(mkEdge \<bar>b1\<bar> intdir1 \<bar>b2\<bar> intdir2, adjscore),
          (mkEdge \<bar>b2\<bar> (- intdir2) \<bar>b1\<bar> (- intdir1), adjscore)])"

definition insertion_order_spec :: "(int \<times> int \<times> real) list \<Rightarrow> (Edge \<times> real) list" where
  "insertion_order_spec rs = sort_key (\<lambda>p. - snd p) (concat (map record_edges rs))"

subsection \<open>Notions used to state the assembler's properties\<close>

text \<open>
  A chain closes into a cycle when its last edge ends where its first edge starts: the
  same block, not the sentinel 0, with the same direction. This is the condition of
  consecutive edges of a chain, applied from the last edge back to the first.
\<close>

definition is_cycle :: "Edge list \<Rightarrow> bool" where
  "is_cycle le =
     (le \<noteq> [] \<and> bid1 (hd le) \<noteq> 0 \<and> bid2 (last le) = bid1 (hd le) \<and> dir2 (last le) = dir1 (hd le))"

text \<open>
  The registry key of each end of an edge, as \<open>main\<close> computes it both before the
  insertion attempts and when a new class is created: \<open>-bid1\<close> or \<open>bid1\<close> for the
  first end, \<open>bid2\<close> or \<open>-bid2\<close> for the second. The ends of the sentinel block 0
  are never looked up and are left out.
\<close>

definition end1 :: "Edge \<Rightarrow> int" where
  "end1 e = (if dir1 e = 1 then - bid1 e else bid1 e)"

definition end2 :: "Edge \<Rightarrow> int" where
  "end2 e = (if dir2 e = 1 then bid2 e else - bid2 e)"

definition edge_ends :: "Edge \<Rightarrow> int list" where
  "edge_ends e = (if bid1 e \<noteq> 0 then [end1 e] else []) @ (if bid2 e \<noteq> 0 then [end2 e] else [])"

definition chain_ends :: "Edge list \<Rightarrow> int list" where
  "chain_ends le = concat (map edge_ends le)"

definition all_ends :: "classes \<Rightarrow> int list" where
  "all_ends mc = concat (map (\<lambda>p. chain_ends (snd p)) mc)"

text \<open>
  What the loops of \<open>main\<close> iterate: \<open>i\<close> and \<open>j\<close> run from 0 and differ.
\<close>

definition valid_edge :: "Edge \<Rightarrow> bool" where
  "valid_edge e = (0 \<le> bid1 e \<and> 0 \<le> bid2 e \<and> bid1 e \<noteq> bid2 e)"

text \<open>
  The invariant of the greedy loop: no class is empty or a cycle, the keys of
  \<open>mapClasses\<close> increase and are at most \<open>clscnt\<close>, no end occurs twice in the
  classes, and every end in a class is registered.
\<close>

definition ok_classes :: "classes \<Rightarrow> bool" where
  "ok_classes mc = (\<forall>p \<in> set mc. snd p \<noteq> [] \<and> \<not> is_cycle (snd p))"

definition assembler_inv :: "assembler \<Rightarrow> bool" where
  "assembler_inv st =
     (ok_classes (mapClasses st) \<and>
      sorted_wrt (<) (map fst (mapClasses st)) \<and>
      (\<forall>k \<in> fst ` set (mapClasses st). k \<le> clscnt st) \<and>
      distinct (all_ends (mapClasses st)) \<and>
      set (all_ends (mapClasses st)) \<subseteq> dom (mapUsed st))"

subsection \<open>Inputs used as examples\<close>




definition end_in_use :: "(int \<times> int \<times> real) list" where
  "end_in_use = [(1, 2, 0.9), (1, 3, 0.5)]"

definition end_in_use_sorted :: "(Edge \<times> real) list" where
  "end_in_use_sorted =
     [(mkEdge 1 1 2 1, 0.9), (mkEdge 2 (- 1) 1 (- 1), 0.9),
      (mkEdge 1 1 3 1, 0.5), (mkEdge 3 (- 1) 1 (- 1), 0.5)]"

definition two_ends :: "(int \<times> int \<times> real) list" where
  "two_ends = [(0, 5, 0.9), (7, 0, 0.8)]"

definition two_ends_sorted :: "(Edge \<times> real) list" where
  "two_ends_sorted =
     [(mkEdge 0 1 5 1, 0.9), (mkEdge 5 (- 1) 0 (- 1), 0.9),
      (mkEdge 0 (- 1) 7 (- 1), 0.8), (mkEdge 7 1 0 1, 0.8)]"

definition tied :: "(int \<times> int \<times> real) list" where
  "tied = [(1, 3, 0.5), (1, 2, 0.5)]"

definition tied_a :: "(Edge \<times> real) list" where
  "tied_a =
     [(mkEdge 1 1 2 1, 0.5), (mkEdge 1 1 3 1, 0.5),
      (mkEdge 2 (- 1) 1 (- 1), 0.5), (mkEdge 3 (- 1) 1 (- 1), 0.5)]"

text \<open>Block 0 at a junction between two consecutive edges of a chain.\<close>

definition sentinel_inside :: "Edge list \<Rightarrow> bool" where
  "sentinel_inside le = (0 \<in> set (map bid2 (butlast le)))"

section \<open>Stage 1: adjacency probabilities (inferAdjProb.c)\<close>

subsection \<open>The canonical index space\<close>

text \<open>
  The file-level variables \<open>A\<close>, \<open>T\<close>, \<open>N\<close> and \<open>Z\<close>. \<open>A\<close> is never assigned after its
  initialisation to 0, \<open>T\<close> is set by \<open>calculateTotalEle\<close>, and \<open>initSets\<close> sets
  \<open>Z = 2 * T + 1\<close> and \<open>N = Z + 1\<close>. They are C \<open>int\<close>s, modelled as \<open>int\<close>: the
  program allocates \<open>N * N / 8 + 1\<close> bytes per bit matrix, so no index computation
  leaves the 32-bit range in a run that gets that far.
\<close>

record globals =
  A :: int
  T :: int
  N :: int
  Z :: int

definition globals_of :: "int \<Rightarrow> globals" where
  "globals_of t = \<lparr>A = 0, T = t, N = (2 * t + 1) + 1, Z = 2 * t + 1\<rparr>"

definition map_c :: "globals \<Rightarrow> int \<Rightarrow> int" where
  "map_c g i =
     (if i = A g then Z g
      else if i = Z g then A g
      else if i \<le> T g then i + T g else i - T g)"


text \<open>
  \<open>Set\<close>, \<open>PSet\<close>, \<open>SSet\<close> and \<open>updatePS\<close> all begin by folding a signed element
  reference into the index space: \<open>if (i < 0) i = map(-i);\<close>.
\<close>

definition foldIndex :: "globals \<Rightarrow> int \<Rightarrow> int" where
  "foldIndex g i = (if i < 0 then map_c g (- i) else i)"

subsection \<open>The one-branch transition probability\<close>

text \<open>
  \<open>prob(son, i, s)\<close> reads \<open>son->distalpha\<close> and the global \<open>T\<close>. The C doubles are
  idealised as real numbers, and \<open>exp\<close> of \<open>math.h\<close> as the real exponential.
\<close>

definition prob :: "globals \<Rightarrow> real \<Rightarrow> int \<Rightarrow> int \<Rightarrow> real" where
  "prob g distalpha_son i s =
     (let n = real_of_int (T g); ttaa = distalpha_son in
      if i = s then 1 / (2 * n - 1) + (2 * n - 2) / (2 * n - 1) * exp (- (2 * n - 1) * ttaa)
      else 1 / (2 * n - 1) - 1 / (2 * n - 1) * exp (- (2 * n - 1) * ttaa))"

subsection \<open>The tree\<close>

text \<open>
  \<open>struct phyloTree\<close> with the fields that re-rooting reads or writes. Nodes live in
  a heap, a partial map from addresses; \<open>NULL\<close> is \<open>None\<close>. The \<open>next\<close> chain that
  \<open>adjustNextInTree\<close> builds is represented by the list of nodes in the order in which
  it links them. Branch lengths are doubles that re-rooting only copies; they are
  modelled as reals.
\<close>

type_synonym addr = nat

record phyloTree =
  parent :: "addr option"
  child_LEFT :: "addr option"
  child_RIGHT :: "addr option"
  distalpha :: real
  name :: string

type_synonym heap = "addr \<rightharpoonup> phyloTree"












subsection \<open>Trees in the heap\<close>


















definition same_data :: "heap \<Rightarrow> heap \<Rightarrow> bool" where
  "same_data h h' = (\<forall>x. map_option (\<lambda>n. (distalpha n, name n)) (h' x) = map_option (\<lambda>n. (distalpha n, name n)) (h x))"

definition same_links :: "heap \<Rightarrow> heap \<Rightarrow> bool" where
  "same_links h h' =
     (\<forall>x. map_option (\<lambda>n. (parent n, child_LEFT n, child_RIGHT n, name n)) (h' x) =
          map_option (\<lambda>n. (parent n, child_LEFT n, child_RIGHT n, name n)) (h x))"





subsection \<open>The bit matrices\<close>

text \<open>
  \<open>DPPI\<close>, the \<open>P\<close> of a leaf and its \<open>there\<close> are arrays of \<open>unsigned char\<close>, here
  functions from the index to a byte; \<open>AllocArray\<close> zeroes them. \<open>Val\<close> reads bit
  \<open>pos % X\<close> of byte \<open>pos / X\<close>. The positions are never negative for indices in
  \<open>0..Z\<close>, where the division and remainder of C are \<open>div\<close> and \<open>mod\<close>.
\<close>

type_synonym bytes = "int \<Rightarrow> 8 word"

definition X :: int where "X = 8"
definition YES :: "8 word" where "YES = 1"
definition NO :: "8 word" where "NO = 0"
definition HI :: "8 word" where "HI = 255"

definition Val :: "globals \<Rightarrow> bytes \<Rightarrow> int \<Rightarrow> int \<Rightarrow> 8 word" where
  "Val g H i j =
     (let pos = i * N g + j; a = pos div X; b = pos mod X
      in drop_bit (nat b) (H a) AND 1)"

text \<open>
  \<open>Set\<close> folds signed element references into the index space, moves column \<open>A\<close> to
  column \<open>Z\<close>, and sets or clears the bit. \<open>updatePS\<close> records the columns that a
  leaf constrains.
\<close>

definition Set :: "globals \<Rightarrow> bytes \<Rightarrow> int \<Rightarrow> int \<Rightarrow> 8 word \<Rightarrow> bytes" where
  "Set g H i j v =
     (let i = (if i < 0 then map_c g (- i) else i);
          j = (if j < 0 then map_c g (- j) else j);
          j = (if j = A g then Z g else j);
          pos = i * N g + j; a = pos div X; b = pos mod X
      in if v = 1 then H(a := H a OR push_bit (nat b) 1)
         else H(a := H a AND (HI - push_bit (nat b) 1)))"

definition updatePS :: "globals \<Rightarrow> bytes \<Rightarrow> int \<Rightarrow> int \<Rightarrow> bytes" where
  "updatePS g there i j =
     (let j = (if j < 0 then map_c g (- j) else j);
          i = (if i < 0 then map_c g (- i) else i)
      in if i = A g then there(j := YES)
         else if j = Z g then there(map_c g i := YES)
         else (there(map_c g i := YES))(j := YES))"

subsection \<open>The tree and the leaf list during the likelihood computation\<close>

text \<open>
  From \<open>initLeafList\<close> on the tree is only read. A node is a value that carries its
  two children, its address (the key \<open>node\<close> of the two hash tables), its name, its
  \<open>distalpha\<close> and its genome, a list of chromosomes, each the list \<open>eleOrder\<close>.
  \<open>PNull\<close> is the \<open>NULL\<close> child. An entry of the list \<open>Leaf\<close> has the node it
  stands for and the arrays \<open>P\<close> and \<open>there\<close>. The two hash tables \<open>lp_cache\<close> and
  \<open>ll_cache\<close> are maps from \<open>(node, i, j)\<close> to the stored value.
\<close>

type_synonym chromList = "int list list"

datatype ptree = PNull | PNode ptree addr string real chromList ptree

record nodeList =
  nl_addr :: ptree
  nl_P :: bytes
  nl_there :: bytes

record caches =
  lp_cache :: "addr \<times> int \<times> int \<rightharpoonup> real"
  ll_cache :: "addr \<times> int \<times> int \<rightharpoonup> real"

fun node_addr :: "ptree \<Rightarrow> addr option" where
  "node_addr PNull = None"
| "node_addr (PNode l a nm d gn r) = Some a"

fun node_name :: "ptree \<Rightarrow> string" where
  "node_name PNull = []"
| "node_name (PNode l a nm d gn r) = nm"

definition findTreeNode :: "nodeList list \<Rightarrow> string \<Rightarrow> nodeList option" where
  "findTreeNode Leaf nm = find (\<lambda>lf. node_name (nl_addr lf) = nm) Leaf"

definition empty_caches :: caches where
  "empty_caches = \<lparr>lp_cache = Map.empty, ll_cache = Map.empty\<rparr>"

fun node_genome :: "ptree \<Rightarrow> chromList" where
  "node_genome PNull = []"
| "node_genome (PNode l a nm d gn r) = gn"

fun leaf_nodes :: "ptree \<Rightarrow> ptree list" where
  "leaf_nodes PNull = []"
| "leaf_nodes (PNode l a nm d gn r) =
     (if l = PNull \<and> r = PNull then [PNode l a nm d gn r] else leaf_nodes l @ leaf_nodes r)"

definition initLeafList :: "ptree \<Rightarrow> nodeList list" where
  "initLeafList tree = map (\<lambda>tr. \<lparr>nl_addr = tr, nl_P = (\<lambda>_. 0), nl_there = (\<lambda>_. 0)\<rparr>) (leaf_nodes tree)"

subsection \<open>initSets\<close>

text \<open>
  For every chromosome of every leaf, \<open>initSets\<close> marks the adjacency from the Lo
  marker to the first element, the adjacencies between consecutive elements and the
  adjacency from the last element to the Hi marker, each together with its mirror
  image, in the leaf's \<open>P\<close> and in \<open>DPPI\<close>, and records in \<open>there\<close> which columns
  the leaf constrains. The model covers a tree without outgroup leaves, as when the
  ancestor is the root: then the second part of \<open>initSets\<close>, which reads the join
  files of the outgroups, does nothing. A
  chromosome without elements makes the code read \<open>eleOrder[0]\<close> of an empty array;
  the model gives \<open>None\<close>.
\<close>

type_synonym sets = "bytes \<times> bytes \<times> bytes"

definition mark :: "globals \<Rightarrow> int \<Rightarrow> int \<Rightarrow> int \<Rightarrow> int \<Rightarrow> sets \<Rightarrow> sets" where
  "mark g x y x' y' s =
     (case s of (P, DPPI, there) \<Rightarrow>
        (Set g (Set g P x y YES) x' y' YES,
         Set g (Set g DPPI x y YES) x' y' YES,
         updatePS g there x y))"

fun adjLoop :: "globals \<Rightarrow> int \<Rightarrow> int list \<Rightarrow> sets \<Rightarrow> sets" where
  "adjLoop g prev [] s = mark g prev (Z g) (A g) (- prev) s"
| "adjLoop g prev (cur # rest) s = adjLoop g cur rest (mark g prev cur (- cur) (- prev) s)"

fun initChrom :: "globals \<Rightarrow> int list \<Rightarrow> sets \<Rightarrow> sets option" where
  "initChrom g [] s = None"
| "initChrom g (e # rest) s = Some (adjLoop g e rest (mark g (A g) e (- e) (Z g) s))"

fun initGenome :: "globals \<Rightarrow> chromList \<Rightarrow> sets \<Rightarrow> sets option" where
  "initGenome g [] s = Some s"
| "initGenome g (ch # chs) s =
     (case initChrom g ch s of None \<Rightarrow> None | Some s' \<Rightarrow> initGenome g chs s')"

fun initSets :: "globals \<Rightarrow> nodeList list \<Rightarrow> bytes \<Rightarrow> (nodeList list \<times> bytes) option" where
  "initSets g [] DPPI = Some ([], DPPI)"
| "initSets g (b # bs) DPPI =
     (case initGenome g (node_genome (nl_addr b)) (nl_P b, DPPI, nl_there b) of
        None \<Rightarrow> None
      | Some s \<Rightarrow>
          (case initSets g bs (fst (snd s)) of
             None \<Rightarrow> None
           | Some r \<Rightarrow>
               Some (b\<lparr>nl_P := fst s, nl_there := snd (snd s)\<rparr> # fst r, snd r)))"

text \<open>
  An element reference of a genome is a signed element id other than 0, within
  \<open>-T..T\<close>. Row \<open>Z\<close> of a bit matrix is empty when none of its bits is set.
\<close>

definition valid_ele :: "int \<Rightarrow> int \<Rightarrow> bool" where
  "valid_ele t e = (e \<noteq> 0 \<and> - t \<le> e \<and> e \<le> t)"

definition row_Z_empty :: "int \<Rightarrow> bytes \<Rightarrow> bool" where
  "row_Z_empty t DPPI = (\<forall>k\<ge>0. Val (globals_of t) DPPI (Z (globals_of t)) k = 0)"

subsection \<open>getLP, getLL and preLikelihood\<close>

text \<open>
  \<open>getLP\<close> and \<open>getLL\<close> return the stored value when there is one, and compute, store
  and return it otherwise. \<open>findTreeNode\<close> looks a leaf up by name and aborts when
  there is none; aborting is \<open>None\<close>.
\<close>

fun getLP :: "globals \<Rightarrow> ptree \<Rightarrow> int \<Rightarrow> int \<Rightarrow> caches \<Rightarrow> (real \<times> caches) option" where
  "getLP g PNull i j c = None"
| "getLP g (PNode l a nm d gn r) i j c =
     (case lp_cache c (a, i, j) of
        Some val \<Rightarrow> Some (val, c)
      | None \<Rightarrow>
          let val = prob g d i j
          in Some (val, c\<lparr>lp_cache := (lp_cache c)((a, i, j) \<mapsto> val)\<rparr>))"

text \<open>
  \<open>preLikelihood\<close>, with the loop \<open>for (s = A; s < Z; s++)\<close> as \<open>sumLoop\<close>, whose
  arguments are the child, \<open>i\<close>, \<open>j\<close>, the counter \<open>s\<close> and the sum so far. The
  caches are threaded through every call.
\<close>

function (sequential)
  preLikelihood :: "globals \<Rightarrow> bytes \<Rightarrow> nodeList list \<Rightarrow> ptree \<Rightarrow> int \<Rightarrow> int \<Rightarrow> caches \<Rightarrow> (real \<times> caches) option"
  and sumLoop :: "globals \<Rightarrow> bytes \<Rightarrow> nodeList list \<Rightarrow> ptree \<Rightarrow> int \<Rightarrow> int \<Rightarrow> int \<Rightarrow> real \<Rightarrow> caches \<Rightarrow> (real \<times> caches) option"
  and getLL :: "globals \<Rightarrow> bytes \<Rightarrow> nodeList list \<Rightarrow> ptree \<Rightarrow> int \<Rightarrow> int \<Rightarrow> caches \<Rightarrow> (real \<times> caches) option"
where
  "preLikelihood g DPPI Leaf PNull i j c = None"
| "preLikelihood g DPPI Leaf (PNode l a nm d gn r) i j c =
     (if l = PNull \<and> r = PNull then
        (case findTreeNode Leaf nm of
           None \<Rightarrow> None
         | Some lf \<Rightarrow>
             if nl_there lf j = YES then Some (real (unat (Val g (nl_P lf) i j)), c)
             else Some (1, c))
      else
        case (if l = PNull then Some (1, c) else sumLoop g DPPI Leaf l i j (A g) 0 c) of
          None \<Rightarrow> None
        | Some lc \<Rightarrow>
            (case (if r = PNull then Some (1, snd lc) else sumLoop g DPPI Leaf r i j (A g) 0 (snd lc)) of
               None \<Rightarrow> None
             | Some rc \<Rightarrow> Some (fst lc * fst rc, snd rc)))"
| "sumLoop g DPPI Leaf child i j s acc c =
     (if s < Z g then
        (if Val g DPPI s j = YES then
           (case getLP g child i s c of
              None \<Rightarrow> None
            | Some pc \<Rightarrow>
                (case getLL g DPPI Leaf child s j (snd pc) of
                   None \<Rightarrow> None
                 | Some vc \<Rightarrow> sumLoop g DPPI Leaf child i j (s + 1) (acc + fst pc * fst vc) (snd vc)))
         else sumLoop g DPPI Leaf child i j (s + 1) acc c)
      else Some (acc, c))"
| "getLL g DPPI Leaf node i j c =
     (case node_addr node of
        None \<Rightarrow> None
      | Some a \<Rightarrow>
          (case ll_cache c (a, i, j) of
             Some val \<Rightarrow> Some (val, c)
           | None \<Rightarrow>
               (case preLikelihood g DPPI Leaf node i j c of
                  None \<Rightarrow> None
                | Some vc \<Rightarrow> Some (fst vc, (snd vc)\<lparr>ll_cache := (ll_cache (snd vc))((a, i, j) \<mapsto> fst vc)\<rparr>))))"
  by pat_completeness auto

termination
  by (relation "inv_image (less_than <*lex*> less_than <*lex*> less_than)
        (\<lambda>x. case x of
          Inl (g, DPPI, Leaf, t, i, j, c) \<Rightarrow> (size t, 0, 0)
        | Inr (Inl (g, DPPI, Leaf, t, i, j, s, acc, c)) \<Rightarrow> (size t, 2, nat (Z g - s))
        | Inr (Inr (g, DPPI, Leaf, t, i, j, c)) \<Rightarrow> (size t, 1, 0))") auto


declare sumLoop.simps [simp del]

subsection \<open>The likelihood as the specification words it\<close>

text \<open>
  This definition follows the specification, not the code. At a leaf the value is 1
  when the leaf's marker does not constrain column \<open>j\<close>, and the leaf's bit for
  \<open>(i, j)\<close> otherwise; the leaf's data is the entry of the leaf list that stands for
  this node. At an internal node it is the product over the children that exist of
  the sum over all states \<open>s\<close> compatible with \<open>j\<close> of \<open>branchProb(child, i, s)\<close>
  times \<open>preLikelihood(child, s, j)\<close>, a missing child giving the factor 1. The states
  are the indices \<open>A..Z\<close>.
\<close>

fun node_dist :: "ptree \<Rightarrow> real" where
  "node_dist PNull = 0"
| "node_dist (PNode l a nm d gn r) = d"

definition branchProb :: "globals \<Rightarrow> ptree \<Rightarrow> int \<Rightarrow> int \<Rightarrow> real" where
  "branchProb g child i s = prob g (node_dist child) i s"

definition compatible :: "globals \<Rightarrow> bytes \<Rightarrow> int \<Rightarrow> int \<Rightarrow> bool" where
  "compatible g DPPI s j = (Val g DPPI s j = YES)"

fun preLikelihood_spec :: "globals \<Rightarrow> bytes \<Rightarrow> nodeList list \<Rightarrow> ptree \<Rightarrow> int \<Rightarrow> int \<Rightarrow> real" where
  "preLikelihood_spec g DPPI Leaf PNull i j = 1"
| "preLikelihood_spec g DPPI Leaf (PNode l a nm d gn r) i j =
     (if l = PNull \<and> r = PNull then
        (case find (\<lambda>lf. nl_addr lf = PNode l a nm d gn r) Leaf of
           None \<Rightarrow> 1
         | Some lf \<Rightarrow>
             if nl_there lf j \<noteq> YES then 1 else real (unat (Val g (nl_P lf) i j)))
      else
        (if l = PNull then 1
         else (\<Sum>s\<leftarrow>[A g..Z g].
                 if compatible g DPPI s j
                 then branchProb g l i s * preLikelihood_spec g DPPI Leaf l s j else 0)) *
        (if r = PNull then 1
         else (\<Sum>s\<leftarrow>[A g..Z g].
                 if compatible g DPPI s j
                 then branchProb g r i s * preLikelihood_spec g DPPI Leaf r s j else 0)))"

definition summand :: "globals \<Rightarrow> bytes \<Rightarrow> nodeList list \<Rightarrow> ptree \<Rightarrow> int \<Rightarrow> int \<Rightarrow> int \<Rightarrow> real" where
  "summand g DPPI Leaf child i j s =
     (if compatible g DPPI s j
      then branchProb g child i s * preLikelihood_spec g DPPI Leaf child s j else 0)"


text \<open>
  The nodes of a tree and their addresses. A cache agrees with the specification when
  every value stored for a node of the tree is the value the specification gives.
  The leaf list fits the tree when looking up the name of a leaf finds the entry that
  stands for that leaf.
\<close>

fun subtrees :: "ptree \<Rightarrow> ptree list" where
  "subtrees PNull = []"
| "subtrees (PNode l a nm d gn r) = PNode l a nm d gn r # subtrees l @ subtrees r"

fun addrs :: "ptree \<Rightarrow> addr list" where
  "addrs PNull = []"
| "addrs (PNode l a nm d gn r) = a # addrs l @ addrs r"

definition cache_ok :: "globals \<Rightarrow> bytes \<Rightarrow> nodeList list \<Rightarrow> ptree \<Rightarrow> caches \<Rightarrow> bool" where
  "cache_ok g DPPI Leaf rt c =
     (\<forall>n \<in> set (subtrees rt). \<forall>i j v.
        (lp_cache c (the (node_addr n), i, j) = Some v \<longrightarrow> v = branchProb g n i j) \<and>
        (ll_cache c (the (node_addr n), i, j) = Some v \<longrightarrow> v = preLikelihood_spec g DPPI Leaf n i j))"

definition leaves_ok :: "nodeList list \<Rightarrow> ptree \<Rightarrow> bool" where
  "leaves_ok Leaf rt =
     (\<forall>n \<in> set (subtrees rt).
        (case n of PNode PNull a nm d gn PNull \<Rightarrow>
           (case findTreeNode Leaf nm of None \<Rightarrow> False | Some lf \<Rightarrow> nl_addr lf = n)
         | _ \<Rightarrow> True))"

subsection \<open>A tree with a branch of length zero\<close>

text \<open>
  The tree \<open>(X:0,Y:1)@;\<close> read with \<open>alpha = 1\<close>, with the genomes \<open>1 2\<close> for
  \<open>X\<close> and \<open>1 -2\<close> for \<open>Y\<close>, so that \<open>T = 2\<close>; the ancestor is the root. The leaf
  list and \<open>DPPI\<close> are the ones \<open>initSets\<close> computes.
\<close>

definition zero_branch :: ptree where
  "zero_branch =
     PNode (PNode PNull 1 ''X'' 0 [[1, 2]] PNull) 0 ''IN1'' 0 []
           (PNode PNull 2 ''Y'' 1 [[1, - 2]] PNull)"


definition zero_branch_Leaf :: "nodeList list" where
  "zero_branch_Leaf = fst (the (initSets (globals_of 2) (initLeafList zero_branch) (\<lambda>_. 0)))"

definition zero_branch_DPPI :: bytes where
  "zero_branch_DPPI = snd (the (initSets (globals_of 2) (initLeafList zero_branch) (\<lambda>_. 0)))"

subsection \<open>The likelihood tables\<close>









subsection \<open>getPredecessor, getSuccessor, normalize and the output\<close>













section \<open>Properties\<close>

subsection \<open>insertEdge on rejection\<close>

text \<open>
  Claim C10. Whenever \<open>insertEdge\<close> returns \<open>FAIL\<close> or \<open>CYCLE\<close>, the chain, the
  candidate edge (with its orientation fields) and the used-ends registry are exactly
  as they were when the call was made; only a \<open>SUCCESS\<close> result comes with a mutation, and
  then the chain has grown by one edge.
\<close>

theorem insertEdge_atomic_on_rejection:
  "insertEdge le e mu = Some (res, le', e', mu') \<Longrightarrow>
     (res \<noteq> SUCCESS \<longrightarrow> le' = le \<and> e' = e \<and> mu' = mu) \<and>
     (res = SUCCESS \<longrightarrow> length le' = Suc (length le))"
  by (auto simp: insertEdge_def Let_def split: if_splits)

theorem insertEdge_atomic_on_rejection_witness:
  "insertEdge [mkEdge 1 1 2 1] (mkEdge 2 1 1 1) Map.empty
     = Some (CYCLE, [mkEdge 1 1 2 1], mkEdge 2 1 1 1, Map.empty) \<and>
   CYCLE \<noteq> SUCCESS"
  using insertEdge_atomic_on_rejection
    [of "[mkEdge 1 1 2 1]" "mkEdge 2 1 1 1" Map.empty CYCLE "[mkEdge 1 1 2 1]" "mkEdge 2 1 1 1" Map.empty]
  by (simp add: insertEdge_def mkEdge_def)

subsection \<open>The index folding\<close>

text \<open>
  Claim C9. With \<open>Z = 2 * T + 1\<close>, \<open>map\<close> is an involution on the index space
  \<open>0..Z\<close>. An element reference \<open>e\<close> in \<open>1..T\<close> folds to \<open>e\<close>, its sign-flipped
  reverse \<open>- e\<close> folds to \<open>e + T\<close>, so the two indices lie in \<open>1..2 * T\<close> and differ by
  exactly \<open>T\<close>.
\<close>

theorem map_involution:
  assumes "0 \<le> t" and "g = globals_of t"
  shows "(\<forall>i. 0 \<le> i \<and> i \<le> Z g \<longrightarrow> map_c g (map_c g i) = i) \<and>
         (\<forall>e. 1 \<le> e \<and> e \<le> t \<longrightarrow>
              foldIndex g (- e) - foldIndex g e = t \<and>
              1 \<le> foldIndex g e \<and> foldIndex g e \<le> 2 * t \<and>
              1 \<le> foldIndex g (- e) \<and> foldIndex g (- e) \<le> 2 * t)"
  using assms by (auto simp: map_c_def foldIndex_def globals_of_def)

theorem map_involution_witness:
  "map_c (globals_of 3) (map_c (globals_of 3) 5) = 5 \<and>
   map_c (globals_of 3) (map_c (globals_of 3) 0) = 0 \<and>
   map_c (globals_of 3) (map_c (globals_of 3) 7) = 7 \<and>
   foldIndex (globals_of 3) (- 2) - foldIndex (globals_of 3) 2 = 3"
proof -
  have inv: "\<forall>i. 0 \<le> i \<and> i \<le> Z (globals_of 3) \<longrightarrow>
               map_c (globals_of 3) (map_c (globals_of 3) i) = i"
    and diff: "\<forall>e. 1 \<le> e \<and> e \<le> 3 \<longrightarrow>
               foldIndex (globals_of 3) (- e) - foldIndex (globals_of 3) e = 3"
    using map_involution [of 3 "globals_of 3"] by simp_all
  have z: "Z (globals_of 3) = 7"
    by (simp add: globals_of_def)
  from inv z have "map_c (globals_of 3) (map_c (globals_of 3) 5) = 5"
    and "map_c (globals_of 3) (map_c (globals_of 3) 0) = 0"
    and "map_c (globals_of 3) (map_c (globals_of 3) 7) = 7"
    by simp_all
  moreover from diff have "foldIndex (globals_of 3) (- 2) - foldIndex (globals_of 3) 2 = 3"
    by simp
  ultimately show ?thesis by simp
qed

subsection \<open>The transition probability\<close>

text \<open>
  Claim C1. For every value \<open>ttaa\<close> of the branch parameter \<open>distalpha\<close> of the
  node (in particular every value that is at least 0) and all state indices \<open>i\<close> and \<open>s\<close>, \<open>prob\<close> is
  \<open>1/(2T-1) + (2T-2)/(2T-1) * e^(-(2T-1) * distalpha)\<close> when \<open>i = s\<close> and
  \<open>1/(2T-1) - 1/(2T-1) * e^(-(2T-1) * distalpha)\<close> otherwise, where \<open>T\<close> is the
  element count of the reference genome.
\<close>

theorem prob_formula:
  "prob g ttaa i s =
     (if i = s
      then 1 / (2 * real_of_int (T g) - 1)
             + (2 * real_of_int (T g) - 2) / (2 * real_of_int (T g) - 1)
               * exp (- (2 * real_of_int (T g) - 1) * ttaa)
      else 1 / (2 * real_of_int (T g) - 1)
             - 1 / (2 * real_of_int (T g) - 1)
               * exp (- (2 * real_of_int (T g) - 1) * ttaa))"
  by (simp add: prob_def Let_def)


subsection \<open>The chain assembler: auxiliary facts\<close>

lemma fold_push_front_reverse: "fold (\<lambda>e2 l. reverse e2 # l) le2 le1 = rev (map reverse le2) @ le1"
  by (induction le2 arbitrary: le1) auto

lemma fold_push_front: "fold (\<lambda>e2 l. e2 # l) (rev le2) le1 = le2 @ le1"
  by (induction le2 arbitrary: le1) auto

lemma fold_push_back: "fold (\<lambda>e2 l. l @ [e2]) le2 le1 = le1 @ le2"
  by (induction le2 arbitrary: le1) auto

lemma fold_push_back_reverse: "fold (\<lambda>e2 l. l @ [reverse e2]) (rev le2) le1 = le1 @ map reverse (rev le2)"
  by (induction le2 arbitrary: le1) auto

lemmas merge_folds = fold_push_front_reverse fold_push_front fold_push_back fold_push_back_reverse

lemma reverse_fields [simp]:
  "bid1 (reverse e) = bid2 e" "bid2 (reverse e) = bid1 e"
  "dir1 (reverse e) = (if dir2 e = 1 then - 1 else 1)"
  "dir2 (reverse e) = (if dir1 e = 1 then - 1 else 1)"
  by (simp_all add: reverse_def)

lemma edge_ends_reverse: "mset (edge_ends (reverse e)) = mset (edge_ends e)"
  by (auto simp: edge_ends_def end1_def end2_def)

lemma chain_ends_append [simp]: "chain_ends (xs @ ys) = chain_ends xs @ chain_ends ys"
  by (simp add: chain_ends_def)

lemma chain_ends_Cons [simp]: "chain_ends (x # xs) = edge_ends x @ chain_ends xs"
  by (simp add: chain_ends_def)

lemma chain_ends_Nil [simp]: "chain_ends [] = []"
  by (simp add: chain_ends_def)

lemma chain_ends_map_reverse: "mset (chain_ends (map reverse le)) = mset (chain_ends le)"
  by (induction le) (simp_all add: edge_ends_reverse)

lemma chain_ends_rev: "mset (chain_ends (rev le)) = mset (chain_ends le)"
  by (induction le) simp_all

lemma mergeStep_shape:
  assumes "mergeStep clsid j (le1, mc) = Some (le1', mc')"
  shows "(le1' = le1 \<and> mc' = mc) \<or>
         (\<exists>le2. j \<noteq> clsid \<and> map_of mc j = Some le2 \<and> le1 \<noteq> [] \<and> le2 \<noteq> [] \<and> mc' = erase j mc \<and>
            ((le1' = rev (map reverse le2) @ le1 \<and>
                (bid2 (last le1) = 0 \<or> bid2 (last le2) = 0 \<or> bid2 (last le1) \<noteq> bid2 (last le2))) \<or>
             (le1' = le2 @ le1 \<and>
                (bid2 (last le1) = 0 \<or> bid1 (hd le2) = 0 \<or> bid2 (last le1) \<noteq> bid1 (hd le2))) \<or>
             (le1' = le1 @ le2 \<and>
                (bid1 (hd le1) = 0 \<or> bid2 (last le2) = 0 \<or> bid1 (hd le1) \<noteq> bid2 (last le2))) \<or>
             (le1' = le1 @ map reverse (rev le2) \<and>
                (bid1 (hd le1) = 0 \<or> bid1 (hd le2) = 0 \<or> bid1 (hd le1) \<noteq> bid1 (hd le2)))))"
  using assms
  by (auto simp: mergeStep_def Let_def merge_folds split: if_splits option.splits)

lemma hd_rev_map: "xs \<noteq> [] \<Longrightarrow> hd (rev (map f xs)) = f (last xs)"
  by (simp add: hd_rev last_map)

lemma last_map_rev: "xs \<noteq> [] \<Longrightarrow> last (map f (rev xs)) = f (hd xs)"
  by (simp add: last_map last_rev)

lemma mergeStep_no_cycle:
  assumes "mergeStep clsid j (le1, mc) = Some (le1', mc')" and "le1 \<noteq> []" and "\<not> is_cycle le1"
  shows "le1' \<noteq> [] \<and> \<not> is_cycle le1'"
  using mergeStep_shape [OF assms(1)] assms(2,3)
  by (auto simp: is_cycle_def hd_append hd_rev_map last_map_rev)

lemma set_erase: "set (erase k kvs) \<subseteq> set kvs"
  by (auto simp: erase_def)

lemma mergeStep_classes:
  assumes "mergeStep clsid j (le1, mc) = Some (le1', mc')"
  shows "set mc' \<subseteq> set mc"
  using mergeStep_shape [OF assms] set_erase by fastforce

lemma mergeStep_defined:
  assumes "le1 \<noteq> []" and "\<forall>p \<in> set mc. snd p \<noteq> []"
  shows "\<exists>s'. mergeStep clsid j (le1, mc) = Some s'"
proof (cases "map_of mc j")
  case None
  then show ?thesis by (simp add: mergeStep_def)
next
  case (Some le2)
  then have "(j, le2) \<in> set mc" by (rule map_of_SomeD)
  with assms(2) have "le2 \<noteq> []" by fastforce
  with Some assms(1) show ?thesis
    by (simp add: mergeStep_def Let_def)
qed

lemma mergeLoop_no_cycle:
  assumes "mergeLoop js clsid (le1, mc) = Some (le1', mc')" and "le1 \<noteq> []" and "\<not> is_cycle le1"
  shows "le1' \<noteq> [] \<and> \<not> is_cycle le1' \<and> set mc' \<subseteq> set mc"
  using assms
proof (induction js arbitrary: le1 mc)
  case Nil
  then show ?case by simp
next
  case (Cons j js)
  from Cons.prems(1) obtain l m where st: "mergeStep clsid j (le1, mc) = Some (l, m)"
    and rest: "mergeLoop js clsid (l, m) = Some (le1', mc')"
    by (auto split: option.splits)
  from mergeStep_no_cycle [OF st Cons.prems(2,3)] have "l \<noteq> []" "\<not> is_cycle l" by simp_all
  from Cons.IH [OF rest this] mergeStep_classes [OF st] show ?case by blast
qed

lemma mergeLoop_defined:
  assumes "le1 \<noteq> []" and "\<forall>p \<in> set mc. snd p \<noteq> []"
  shows "\<exists>s'. mergeLoop js clsid (le1, mc) = Some s'"
  using assms
proof (induction js arbitrary: le1 mc)
  case Nil
  then show ?case by simp
next
  case (Cons j js)
  from mergeStep_defined [OF Cons.prems] obtain l m where st: "mergeStep clsid j (le1, mc) = Some (l, m)"
    by fastforce
  from mergeStep_shape [OF st] Cons.prems(1) have l: "l \<noteq> []" by auto
  from mergeStep_classes [OF st] Cons.prems(2) have "\<forall>p \<in> set m. snd p \<noteq> []" by blast
  from Cons.IH [OF l this] st show ?case by simp
qed

lemma insertEdge_no_cycle:
  assumes "insertEdge le e mu = Some (SUCCESS, le', e', mu')"
  shows "le' \<noteq> [] \<and> \<not> is_cycle le'"
  using assms
  by (auto simp: insertEdge_def Let_def is_cycle_def split: if_splits)

lemma insertEdge_None: "insertEdge le e mu = None \<Longrightarrow> le = []"
  by (simp add: insertEdge_def Let_def split: if_splits)

lemma insertEdge_defined: "le \<noteq> [] \<Longrightarrow> \<exists>r. insertEdge le e mu = Some r"
  using insertEdge_None by blast

lemma insertEdge_rejection:
  "insertEdge le e mu = Some (res, le', e', mu') \<Longrightarrow> res \<noteq> SUCCESS \<Longrightarrow> le' = le \<and> e' = e \<and> mu' = mu"
  by (auto simp: insertEdge_def Let_def split: if_splits)

lemma set_assign: "set (assign k v kvs) \<subseteq> insert (k, v) (set kvs)"
  by (induction kvs) (auto split: if_splits)

lemma ok_classes_assign: "ok_classes mc \<Longrightarrow> le \<noteq> [] \<Longrightarrow> \<not> is_cycle le \<Longrightarrow> ok_classes (assign k le mc)"
  using set_assign [of k le mc] by (fastforce simp: ok_classes_def)

lemma ok_classes_subset: "ok_classes mc \<Longrightarrow> set mc' \<subseteq> set mc \<Longrightarrow> ok_classes mc'"
  by (auto simp: ok_classes_def)

lemma tryChains_ok:
  assumes "tryChains n seen rest e mu = Some (found, mc', e', mu')" and "ok_classes (seen @ rest)"
  shows "ok_classes mc' \<and> (\<not> found \<longrightarrow> mc' = seen @ rest \<and> e' = e \<and> mu' = mu)"
  using assms
proof (induction rest arbitrary: seen)
  case Nil
  then show ?case by simp
next
  case (Cons ce rest)
  obtain c le where ce: "ce = (c, le)" by (cases ce)
  from Cons.prems(1) ce obtain res le1 e1 mu1 where ins: "insertEdge le e mu = Some (res, le1, e1, mu1)"
    by (auto split: option.splits)
  show ?case
  proof (cases "res = SUCCESS")
    case True
    with Cons.prems(1) ce ins obtain le2 mc2 where
      mrg: "mergeLists n c le1 (seen @ (c, le1) # rest) = Some (le2, mc2)"
      and res: "found" "mc' = assign c le2 mc2"
      by (auto split: option.splits)
    from ins True insertEdge_no_cycle have le1: "le1 \<noteq> []" "\<not> is_cycle le1" by blast+
    with Cons.prems(2) ce have ok1: "ok_classes (seen @ (c, le1) # rest)"
      by (auto simp: ok_classes_def)
    from mrg le1 mergeLoop_no_cycle [of "[1..n]" c le1 "seen @ (c, le1) # rest" le2 mc2]
    have "le2 \<noteq> []" "\<not> is_cycle le2" "set mc2 \<subseteq> set (seen @ (c, le1) # rest)"
      by (simp_all add: mergeLists_def)
    with ok1 have "ok_classes mc2" by (blast intro: ok_classes_subset)
    from ok_classes_assign [OF this \<open>le2 \<noteq> []\<close> \<open>\<not> is_cycle le2\<close>] res show ?thesis
      by simp
  next
    case False
    from insertEdge_rejection [OF ins False] have same: "le1 = le" "e1 = e" "mu1 = mu" by simp_all
    show ?thesis
    proof (cases "res = CYCLE")
      case True
      with Cons.prems ce ins same show ?thesis by auto
    next
      case notc: False
      with False Cons.prems(1) ce ins same
      have "tryChains n (seen @ [(c, le)]) rest e mu = Some (found, mc', e', mu')" by simp
      from Cons.IH [OF this] Cons.prems(2) ce show ?thesis by simp
    qed
  qed
qed

lemma tryChains_defined:
  assumes "\<forall>p \<in> set (seen @ rest). snd p \<noteq> []"
  shows "\<exists>r. tryChains n seen rest e mu = Some r"
  using assms
proof (induction rest arbitrary: seen)
  case Nil
  show ?case by (rule exI [of _ "(False, seen, e, mu)"]) simp
next
  case (Cons ce rest)
  obtain c le where ce: "ce = (c, le)" by (cases ce)
  with Cons.prems have "le \<noteq> []" by auto
  from insertEdge_defined [OF this] obtain res le1 e1 mu1 where
    ins: "insertEdge le e mu = Some (res, le1, e1, mu1)" by (metis prod_cases4)
  show ?case
  proof (cases "res = SUCCESS")
    case True
    from ins True insertEdge_no_cycle have le1: "le1 \<noteq> []" by blast
    with Cons.prems ce have "\<forall>p \<in> set (seen @ (c, le1) # rest). snd p \<noteq> []" by auto
    from mergeLoop_defined [OF le1 this, of "[1..n]" c] obtain s' where
      "mergeLists n c le1 (seen @ (c, le1) # rest) = Some s'"
      unfolding mergeLists_def by blast
    with ce ins True show ?thesis by (cases s') auto
  next
    case False
    from insertEdge_rejection [OF ins False] have same: "le1 = le" "e1 = e" "mu1 = mu" by simp_all
    from Cons.prems ce have "\<forall>p \<in> set ((seen @ [(c, le)]) @ rest). snd p \<noteq> []" by auto
    from Cons.IH [OF this] ce ins False same show ?thesis by auto
  qed
qed

lemma all_ends_simps [simp]:
  "all_ends [] = []"
  "all_ends (p # mc) = chain_ends (snd p) @ all_ends mc"
  "all_ends (mc @ mc') = all_ends mc @ all_ends mc'"
  by (simp_all add: all_ends_def)

lemma erase_simps [simp]:
  "erase k [] = []"
  "erase k (p # kvs) = (if fst p = k then erase k kvs else p # erase k kvs)"
  "erase k (kvs @ kvs') = erase k kvs @ erase k kvs'"
  by (simp_all add: erase_def)

lemma erase_absent: "k \<notin> fst ` set kvs \<Longrightarrow> erase k kvs = kvs"
  by (induction kvs) auto

lemma keys_erase: "fst ` set (erase k kvs) = fst ` set kvs - {k}"
  by (induction kvs) auto

lemma erase_commute: "erase k (erase j kvs) = erase j (erase k kvs)"
  by (induction kvs) auto

lemma sorted_erase: "sorted_wrt (<) (map fst kvs) \<Longrightarrow> sorted_wrt (<) (map fst (erase k kvs))"
  by (induction kvs) (auto simp: keys_erase)

lemma keys_assign: "fst ` set (assign k v kvs) = insert k (fst ` set kvs)"
proof (induction kvs)
  case Nil
  show ?case by simp
next
  case (Cons p kvs)
  obtain k' v' where p: "p = (k', v')" by (cases p)
  consider "k < k'" | "k = k'" | "k' < k" by linarith
  then show ?case
  proof cases
    case 1
    with p show ?thesis by simp
  next
    case 2
    with p show ?thesis by simp
  next
    case 3
    with p Cons.IH show ?thesis by (simp add: insert_commute)
  qed
qed

lemma sorted_assign: "sorted_wrt (<) (map fst kvs) \<Longrightarrow> sorted_wrt (<) (map fst (assign k v kvs))"
proof (induction kvs)
  case Nil
  then show ?case by simp
next
  case (Cons p kvs)
  obtain k' v' where p: "p = (k', v')" by (cases p)
  from Cons.prems p have le: "\<forall>x \<in> fst ` set kvs. k' < x" and s: "sorted_wrt (<) (map fst kvs)"
    by auto
  show ?case
  proof (cases "k < k'")
    case True
    with le have "\<forall>x \<in> fst ` set kvs. k < x" by force
    with True p le s show ?thesis by auto
  next
    case False
    with p le s Cons.IH [OF s] show ?thesis
      by (auto simp: keys_assign)
  qed
qed

lemma all_ends_lookup:
  "distinct (map fst mc) \<Longrightarrow> map_of mc j = Some le2 \<Longrightarrow>
     mset (all_ends mc) = mset (chain_ends le2) + mset (all_ends (erase j mc))"
proof (induction mc)
  case Nil
  then show ?case by simp
next
  case (Cons p mc)
  show ?case
  proof (cases "fst p = j")
    case True
    with Cons.prems have "snd p = le2" "j \<notin> fst ` set mc" by (cases p; auto)+
    with True show ?thesis by (simp add: erase_absent)
  next
    case False
    with Cons.prems have "map_of mc j = Some le2" "distinct (map fst mc)" by (cases p; auto)+
    with Cons.IH False show ?thesis by simp
  qed
qed

lemma all_ends_assign:
  "sorted_wrt (<) (map fst mc) \<Longrightarrow>
     mset (all_ends (assign k le mc)) = mset (chain_ends le) + mset (all_ends (erase k mc))"
proof (induction mc)
  case Nil
  then show ?case by simp
next
  case (Cons p mc)
  obtain k' v' where p: "p = (k', v')" by (cases p)
  show ?case
  proof (cases "k < k'")
    case True
    with Cons.prems p have "k \<notin> fst ` set mc" by auto
    with True p show ?thesis by (simp add: erase_absent)
  next
    case False
    show ?thesis
    proof (cases "k = k'")
      case True
      with Cons.prems p have "k \<notin> fst ` set mc" by auto
      with True p show ?thesis by (simp add: erase_absent)
    next
      case ne: False
      with False p Cons show ?thesis by simp
    qed
  qed
qed

lemma sorted_keys_distinct: "sorted_wrt (<) (map fst (mc :: classes)) \<Longrightarrow> distinct (map fst mc)"
  by (simp add: strict_sorted_iff)

lemma mergeStep_ends:
  assumes st: "mergeStep clsid j (le1, mc) = Some (le1', mc')"
    and d: "distinct (map fst mc)"
  shows "mset (chain_ends le1') + mset (all_ends (erase clsid mc')) =
         mset (chain_ends le1) + mset (all_ends (erase clsid mc))"
proof -
  from mergeStep_shape [OF st] consider
    (same) "le1' = le1" "mc' = mc"
  | (merged) le2 where "j \<noteq> clsid" "map_of mc j = Some le2" "mc' = erase j mc"
      "mset (chain_ends le1') = mset (chain_ends le1) + mset (chain_ends le2)"
    by (auto simp: chain_ends_map_reverse chain_ends_rev rev_map [symmetric])
  then show ?thesis
  proof cases
    case same
    then show ?thesis by simp
  next
    case merged
    from d have d': "distinct (map fst (erase clsid mc))"
      by (simp add: erase_def distinct_map_filter)
    from merged(1,2) have "map_of (erase clsid mc) j = Some le2"
      by (induction mc) (auto split: if_splits)
    from all_ends_lookup [OF d' this] merged show ?thesis
      by (simp add: erase_commute)
  qed
qed

lemma mergeStep_keys:
  assumes "mergeStep clsid j (le1, mc) = Some (le1', mc')" and "sorted_wrt (<) (map fst mc)"
  shows "sorted_wrt (<) (map fst mc') \<and> fst ` set mc' \<subseteq> fst ` set mc"
  using mergeStep_shape [OF assms(1)] assms(2) sorted_erase [of mc j] keys_erase [of j mc]
  by auto

lemma mergeLoop_ends:
  assumes "mergeLoop js clsid (le1, mc) = Some (le1', mc')" and "sorted_wrt (<) (map fst mc)"
  shows "sorted_wrt (<) (map fst mc') \<and> fst ` set mc' \<subseteq> fst ` set mc \<and>
         mset (chain_ends le1') + mset (all_ends (erase clsid mc')) =
         mset (chain_ends le1) + mset (all_ends (erase clsid mc))"
  using assms
proof (induction js arbitrary: le1 mc)
  case Nil
  then show ?case by simp
next
  case (Cons j js)
  from Cons.prems(1) obtain l m where st: "mergeStep clsid j (le1, mc) = Some (l, m)"
    and rest: "mergeLoop js clsid (l, m) = Some (le1', mc')"
    by (auto split: option.splits)
  from mergeStep_keys [OF st Cons.prems(2)]
  have k: "sorted_wrt (<) (map fst m)" "fst ` set m \<subseteq> fst ` set mc" by simp_all
  from Cons.IH [OF rest k(1)]
  have ih: "sorted_wrt (<) (map fst mc')" "fst ` set mc' \<subseteq> fst ` set m"
    "mset (chain_ends le1') + mset (all_ends (erase clsid mc')) =
     mset (chain_ends l) + mset (all_ends (erase clsid m))"
    by simp_all
  from ih(2) k(2) have "fst ` set mc' \<subseteq> fst ` set mc" by (rule subset_trans)
  with ih(1,3) mergeStep_ends [OF st sorted_keys_distinct [OF Cons.prems(2)]]
  show ?case by simp
qed

lemma insertEdge_ends:
  assumes "insertEdge le e mu = Some (SUCCESS, le', e', mu')"
  shows "mset (chain_ends le') = mset (chain_ends le) + mset (edge_ends e) \<and>
         dom mu \<subseteq> dom mu' \<and> set (edge_ends e) \<subseteq> dom mu'"
proof -
  from assms have ne: "le \<noteq> []" by (auto simp: insertEdge_def)
  have r: "mset (edge_ends (reverse e)) = mset (edge_ends e)" by (rule edge_ends_reverse)
  have s: "set (edge_ends e) \<subseteq> {end1 e, end2 e}" by (auto simp: edge_ends_def)
  from assms ne consider
    (b1) "le' = reverse e # le" "bid1 (hd le) = bid1 e"
         "mu' = (if dir1 (reverse e) = 1 then (mu(bid1 (hd le) \<mapsto> 1, - bid1 (hd le) \<mapsto> 1))(- bid1 (reverse e) \<mapsto> 1)
                 else (mu(bid1 (hd le) \<mapsto> 1, - bid1 (hd le) \<mapsto> 1))(bid1 (reverse e) \<mapsto> 1))"
  | (b2) "le' = e # le" "bid1 (hd le) = bid2 e"
         "mu' = (if dir1 e = 1 then (mu(bid1 (hd le) \<mapsto> 1, - bid1 (hd le) \<mapsto> 1))(- bid1 e \<mapsto> 1)
                 else (mu(bid1 (hd le) \<mapsto> 1, - bid1 (hd le) \<mapsto> 1))(bid1 e \<mapsto> 1))"
  | (b3) "le' = le @ [e]" "bid2 (last le) = bid1 e"
         "mu' = (if dir2 e = 1 then (mu(bid2 (last le) \<mapsto> 1, - bid2 (last le) \<mapsto> 1))(bid2 e \<mapsto> 1)
                 else (mu(bid2 (last le) \<mapsto> 1, - bid2 (last le) \<mapsto> 1))(- bid2 e \<mapsto> 1))"
  | (b4) "le' = le @ [reverse e]" "bid2 (last le) = bid2 e"
         "mu' = (if dir2 (reverse e) = 1 then (mu(bid2 (last le) \<mapsto> 1, - bid2 (last le) \<mapsto> 1))(bid2 (reverse e) \<mapsto> 1)
                 else (mu(bid2 (last le) \<mapsto> 1, - bid2 (last le) \<mapsto> 1))(- bid2 (reverse e) \<mapsto> 1))"
    by (auto simp: insertEdge_def Let_def split: if_splits)
  then show ?thesis
  proof cases
    case b1
    then show ?thesis using r s by (auto simp: end1_def end2_def split: if_splits)
  next
    case b2
    then show ?thesis using s by (auto simp: end1_def end2_def split: if_splits)
  next
    case b3
    then show ?thesis using s by (auto simp: end1_def end2_def split: if_splits)
  next
    case b4
    then show ?thesis using r s by (auto simp: end1_def end2_def split: if_splits)
  qed
qed

lemma map_of_mid: "c \<notin> fst ` set seen \<Longrightarrow> map_of (seen @ (c, le) # rest) c = Some le"
  by (induction seen) auto

lemma tryChains_ends:
  assumes "tryChains n seen rest e mu = Some (found, mc', e', mu')"
    and "sorted_wrt (<) (map fst (seen @ rest))"
  shows "sorted_wrt (<) (map fst mc') \<and> fst ` set mc' \<subseteq> fst ` set (seen @ rest) \<and>
         ((mc' = seen @ rest \<and> mu' = mu \<and> e' = e) \<or>
          (found \<and> mset (all_ends mc') = mset (all_ends (seen @ rest)) + mset (edge_ends e) \<and>
           dom mu \<subseteq> dom mu' \<and> set (edge_ends e) \<subseteq> dom mu'))"
  using assms
proof (induction rest arbitrary: seen)
  case Nil
  then show ?case by simp
next
  case (Cons ce rest)
  obtain c le where ce: "ce = (c, le)" by (cases ce)
  let ?mc0 = "seen @ (c, le) # rest"
  from Cons.prems(1) ce obtain res le1 e1 mu1 where ins: "insertEdge le e mu = Some (res, le1, e1, mu1)"
    by (auto split: option.splits)
  show ?case
  proof (cases "res = SUCCESS")
    case True
    let ?mcA = "seen @ (c, le1) # rest"
    from Cons.prems(1) ce ins True obtain le2 mc2 where
      mrg: "mergeLoop [1..n] c (le1, ?mcA) = Some (le2, mc2)"
      and res: "found" "mc' = assign c le2 mc2" "mu' = mu1"
      by (auto simp: mergeLists_def split: option.splits)
    from Cons.prems(2) ce have sA: "sorted_wrt (<) (map fst ?mcA)" by simp
    from mergeLoop_ends [OF mrg sA]
    have m: "sorted_wrt (<) (map fst mc2)" "fst ` set mc2 \<subseteq> fst ` set ?mcA"
      "mset (chain_ends le2) + mset (all_ends (erase c mc2)) =
       mset (chain_ends le1) + mset (all_ends (erase c ?mcA))"
      by simp_all
    from ins True insertEdge_ends
    have i: "mset (chain_ends le1) = mset (chain_ends le) + mset (edge_ends e)"
      "dom mu \<subseteq> dom mu1" "set (edge_ends e) \<subseteq> dom mu1"
      by blast+
    from Cons.prems(2) ce have d0: "distinct (map fst ?mc0)"
      using sorted_keys_distinct by blast
    then have "c \<notin> fst ` set seen" by auto
    then have "map_of ?mc0 c = Some le" by (rule map_of_mid)
    from all_ends_lookup [OF d0 this]
    have l: "mset (all_ends ?mc0) = mset (chain_ends le) + mset (all_ends (erase c ?mc0))" .
    have er: "erase c ?mcA = erase c ?mc0" by simp
    have "mset (all_ends mc') = mset (chain_ends le2) + mset (all_ends (erase c mc2))"
      using res(2) all_ends_assign [OF m(1)] by simp
    also have "\<dots> = mset (chain_ends le1) + mset (all_ends (erase c ?mc0))"
      using m(3) er by simp
    also have "\<dots> = mset (all_ends ?mc0) + mset (edge_ends e)"
      using i(1) l by simp
    finally have ends: "mset (all_ends mc') = mset (all_ends ?mc0) + mset (edge_ends e)" .
    have keys: "fst ` set mc' \<subseteq> fst ` set ?mc0"
      using res(2) m(2) by (auto simp: keys_assign)
    from ends keys res i(2,3) sorted_assign [OF m(1)] ce show ?thesis by simp
  next
    case False
    from insertEdge_rejection [OF ins False] have same: "le1 = le" "e1 = e" "mu1 = mu" by simp_all
    show ?thesis
    proof (cases "res = CYCLE")
      case True
      with Cons.prems ce ins same show ?thesis by auto
    next
      case notc: False
      with False Cons.prems(1) ce ins same
      have "tryChains n (seen @ [(c, le)]) rest e mu = Some (found, mc', e', mu')" by simp
      from Cons.IH [OF this] Cons.prems(2) ce show ?thesis by simp
    qed
  qed
qed

lemma distinct_mset_append:
  "mset zs = mset xs + mset ys \<Longrightarrow> distinct xs \<Longrightarrow> distinct ys \<Longrightarrow> set xs \<inter> set ys = {} \<Longrightarrow> distinct zs"
  by (metis distinct_append mset_append mset_eq_imp_distinct_iff)

lemma set_mset_append:
  "mset zs = mset xs + mset ys \<Longrightarrow> set zs = set xs \<union> set ys"
  by (metis mset_append mset_eq_setD set_append)

lemma edge_ends_free:
  "set (edge_ends e) \<inter> dom mu = {} \<longleftrightarrow>
     \<not> (bid1 e \<noteq> 0 \<and> (if dir1 e = 1 then mu (- bid1 e) else mu (bid1 e)) \<noteq> None) \<and>
     \<not> (bid2 e \<noteq> 0 \<and> (if dir2 e = 1 then mu (bid2 e) else mu (- bid2 e)) \<noteq> None)"
  by (auto simp: edge_ends_def end1_def end2_def dom_def)

lemma new_class_registry:
  "dom (if bid2 e \<noteq> 0
        then (if dir2 e = 1
              then (if bid1 e \<noteq> 0 then (if dir1 e = 1 then mu(- bid1 e \<mapsto> 1) else mu(bid1 e \<mapsto> 1)) else mu)(bid2 e \<mapsto> 1)
              else (if bid1 e \<noteq> 0 then (if dir1 e = 1 then mu(- bid1 e \<mapsto> 1) else mu(bid1 e \<mapsto> 1)) else mu)(- bid2 e \<mapsto> (1::int)))
        else (if bid1 e \<noteq> 0 then (if dir1 e = 1 then mu(- bid1 e \<mapsto> 1) else mu(bid1 e \<mapsto> 1)) else mu))
   = dom mu \<union> set (edge_ends e)"
  by (auto simp: edge_ends_def end1_def end2_def)

lemma prepareEdge_ids:
  "bid1 (prepareEdge sc p) = bid1 (fst p)" "bid2 (prepareEdge sc p) = bid2 (fst p)"
  "dir1 (prepareEdge sc p) = dir1 (fst p)" "dir2 (prepareEdge sc p) = dir2 (fst p)"
  "weight (prepareEdge sc p) = snd p"
  by (simp_all add: prepareEdge_def Let_def split: option.splits)

lemma processEdge_inv:
  assumes "assembler_inv st" and "valid_edge (fst p)"
  shows "\<exists>st'. processEdge thr sc st p = Some st' \<and> assembler_inv st'"
proof -
  define e where "e = prepareEdge sc p"
  have ev: "valid_edge e"
    using assms(2) by (simp add: e_def valid_edge_def prepareEdge_ids)
  let ?mc = "mapClasses st" and ?mu = "mapUsed st"
  from assms(1) have ok: "ok_classes ?mc" and srt: "sorted_wrt (<) (map fst ?mc)"
    and bnd: "\<forall>k \<in> fst ` set ?mc. k \<le> clscnt st" and dst: "distinct (all_ends ?mc)"
    and reg: "set (all_ends ?mc) \<subseteq> dom ?mu"
    by (simp_all add: assembler_inv_def)
  from ok have ne: "\<forall>p \<in> set ([] @ ?mc). snd p \<noteq> []" by (simp add: ok_classes_def)
  from tryChains_defined [OF ne] obtain found mc' e' mu' where
    tc: "tryChains (clscnt st) [] ?mc e ?mu = Some (found, mc', e', mu')"
    by (metis prod_cases4)
  from tryChains_ok [OF tc] ok have ok': "ok_classes mc'"
    and nf: "\<not> found \<Longrightarrow> mc' = ?mc \<and> e' = e \<and> mu' = ?mu" by simp_all
  from tryChains_ends [OF tc] srt have srt': "sorted_wrt (<) (map fst mc')"
    and keys': "fst ` set mc' \<subseteq> fst ` set ?mc"
    and alt: "(mc' = ?mc \<and> mu' = ?mu \<and> e' = e) \<or>
          (found \<and> mset (all_ends mc') = mset (all_ends ?mc) + mset (edge_ends e) \<and>
           dom ?mu \<subseteq> dom mu' \<and> set (edge_ends e) \<subseteq> dom mu')"
    by simp_all
  have de: "distinct (edge_ends e)"
    using ev by (auto simp: edge_ends_def end1_def end2_def valid_edge_def)
  show ?thesis
  proof (cases "weight e < thr \<or> set (edge_ends e) \<inter> dom ?mu \<noteq> {}")
    case True
    then have "processEdge thr sc st p = Some st"
      unfolding processEdge_def e_def [symmetric] Let_def edge_ends_free by auto
    with assms(1) show ?thesis by simp
  next
    case False
    then have free: "set (edge_ends e) \<inter> dom ?mu = {}" and w: "\<not> weight e < thr" by simp_all
    from free reg have disj: "set (all_ends ?mc) \<inter> set (edge_ends e) = {}" by blast
    show ?thesis
    proof (cases found)
      case True
      from w free tc True have pe: "processEdge thr sc st p = Some (st\<lparr>mapClasses := mc', mapUsed := mu'\<rparr>)"
        unfolding processEdge_def e_def [symmetric] Let_def
        using edge_ends_free [of e ?mu] by auto
      from alt have "assembler_inv (st\<lparr>mapClasses := mc', mapUsed := mu'\<rparr>)"
      proof
        assume "mc' = ?mc \<and> mu' = ?mu \<and> e' = e"
        with assms(1) show ?thesis by (simp add: assembler_inv_def)
      next
        assume a: "found \<and> mset (all_ends mc') = mset (all_ends ?mc) + mset (edge_ends e) \<and>
           dom ?mu \<subseteq> dom mu' \<and> set (edge_ends e) \<subseteq> dom mu'"
        then have "distinct (all_ends mc')"
          using distinct_mset_append [OF _ dst de disj] by blast
        moreover from a have "set (all_ends mc') = set (all_ends ?mc) \<union> set (edge_ends e)"
          using set_mset_append by blast
        with a reg have "set (all_ends mc') \<subseteq> dom mu'" by blast
        moreover from keys' bnd have "\<forall>k \<in> fst ` set mc'. k \<le> clscnt st" by blast
        ultimately show ?thesis using ok' srt' by (simp add: assembler_inv_def)
      qed
      with pe show ?thesis by simp
    next
      case False
      with nf have same: "mc' = ?mc" "e' = e" "mu' = ?mu" by simp_all
      define mu2 where "mu2 = (if bid2 e \<noteq> 0
        then (if dir2 e = 1
              then (if bid1 e \<noteq> 0 then (if dir1 e = 1 then ?mu(- bid1 e \<mapsto> 1) else ?mu(bid1 e \<mapsto> 1)) else ?mu)(bid2 e \<mapsto> 1)
              else (if bid1 e \<noteq> 0 then (if dir1 e = 1 then ?mu(- bid1 e \<mapsto> 1) else ?mu(bid1 e \<mapsto> 1)) else ?mu)(- bid2 e \<mapsto> (1::int)))
        else (if bid1 e \<noteq> 0 then (if dir1 e = 1 then ?mu(- bid1 e \<mapsto> 1) else ?mu(bid1 e \<mapsto> 1)) else ?mu))"
      let ?st' = "\<lparr>mapClasses = assign (clscnt st + 1) [e] ?mc, mapUsed = mu2, clscnt = clscnt st + 1\<rparr>"
      from w free tc False same have pe: "processEdge thr sc st p = Some ?st'"
        unfolding processEdge_def e_def [symmetric] Let_def mu2_def
        using edge_ends_free [of e ?mu] by auto
      have dm: "dom mu2 = dom ?mu \<union> set (edge_ends e)"
        unfolding mu2_def by (rule new_class_registry)
      from bnd have fresh: "clscnt st + 1 \<notin> fst ` set ?mc" by force
      have ends: "mset (all_ends (assign (clscnt st + 1) [e] ?mc)) = mset (all_ends ?mc) + mset (edge_ends e)"
        using all_ends_assign [OF srt, of "clscnt st + 1" "[e]"] erase_absent [OF fresh] by simp
      have "distinct (all_ends (assign (clscnt st + 1) [e] ?mc))"
        using distinct_mset_append [OF ends dst de disj] .
      moreover have "set (all_ends (assign (clscnt st + 1) [e] ?mc)) \<subseteq> dom mu2"
        using set_mset_append [OF ends] reg dm by blast
      moreover have "\<not> is_cycle [e]"
        using ev by (auto simp: is_cycle_def valid_edge_def)
      then have "ok_classes (assign (clscnt st + 1) [e] ?mc)"
        using ok_classes_assign [OF ok, of "[e]"] by simp
      moreover have "\<forall>k \<in> fst ` set (assign (clscnt st + 1) [e] ?mc). k \<le> clscnt st + 1"
        using bnd by (auto simp: keys_assign)
      ultimately have "assembler_inv ?st'"
        using sorted_assign [OF srt] by (simp add: assembler_inv_def)
      with pe show ?thesis by simp
    qed
  qed
qed

lemma greedy_inv:
  assumes "assembler_inv st" and "\<forall>p \<in> set v. valid_edge (fst p)"
  shows "\<exists>st'. greedy thr sc st v = Some st' \<and> assembler_inv st'"
  using assms
proof (induction v arbitrary: st)
  case Nil
  then show ?case by simp
next
  case (Cons p v)
  from processEdge_inv [OF Cons.prems(1), of p thr sc] Cons.prems(2)
  obtain st1 where "processEdge thr sc st p = Some st1" "assembler_inv st1" by auto
  with Cons.IH [of st1] Cons.prems(2) show ?case by simp
qed

lemma inv_init: "assembler_inv init_assembler"
  by (simp add: assembler_inv_def init_assembler_def ok_classes_def)

lemma vecEdges_valid: "\<forall>p \<in> set (vecEdges sc n). valid_edge (fst p)"
  by (auto simp: vecEdges_def valid_edge_def mkEdge_def Let_def split: if_splits)

lemmas assembler_eval =
  main_c_def init_assembler_def processEdge_def prepareEdge_def key_of_def
  readScores_def readRecord_def Let_def mkEdge_def insertEdge_def mergeLists_def
  mergeStep_def upto.simps reverse_def vecEdges_def compute_weight_def



lemma sorted_vec_valid:
  assumes "sort_post (vecEdges sc n) v'"
  shows "\<forall>p \<in> set v'. valid_edge (fst p)"
proof -
  from assms have "set v' = set (vecEdges sc n)"
    by (auto simp: sort_post_def dest: mset_eq_setD)
  with vecEdges_valid show ?thesis by simp
qed

lemma main_c_inv:
  assumes "sort_post (vecEdges (fst (readScores rs)) (snd (readScores rs))) v'"
  shows "\<exists>st. main_c thr rs v' = Some st \<and> assembler_inv st"
  unfolding main_c_def Let_def
  using greedy_inv [OF inv_init sorted_vec_valid [OF assms]] .

lemma end_in_use_sort_post:
  "sort_post (vecEdges (fst (readScores end_in_use)) (snd (readScores end_in_use))) end_in_use_sorted"
  by (simp add: sort_post_def end_in_use_sorted_def end_in_use_def cmp_def assembler_eval)

lemma end_in_use_result:
  "map_option mapClasses (main_c 0 end_in_use end_in_use_sorted) =
     Some [(1, [(mkEdge 1 1 2 1)\<lparr>weight := 0.9, score1 := 0.9\<rparr>])]"
  by (simp add: end_in_use_sorted_def end_in_use_def assembler_eval)

lemma processEdge_below:
  "snd p < thr \<Longrightarrow> processEdge thr sc st p = Some st"
  by (simp add: processEdge_def Let_def prepareEdge_ids)

lemma greedy_filter:
  "greedy thr sc st v = greedy thr sc st (filter (\<lambda>p. \<not> snd p < thr) v)"
  by (induction v arbitrary: st) (auto simp: processEdge_below split: option.splits)



subsection \<open>The chain assembler: cycles\<close>



subsection \<open>The chain assembler: used ends\<close>

text \<open>
  Claim C5. For every score file, every threshold and every vector that the sort may
  leave, the ends of the non-sentinel blocks held by the edges of the final classes are
  pairwise distinct, within a class and across classes, and each of them is in the
  registry. An edge one of whose non-sentinel ends is already in the registry leaves
  the state as it is: it is skipped before any insertion attempt.
\<close>

theorem used_ends_disjoint:
  assumes "sort_post (vecEdges (fst (readScores rs)) (snd (readScores rs))) v'"
  shows "(\<exists>st. main_c thr rs v' = Some st \<and>
              distinct (all_ends (mapClasses st)) \<and>
              (\<forall>k \<in> set (all_ends (mapClasses st)). mapUsed st k \<noteq> None)) \<and>
         (\<forall>sc st p.
            (bid1 (fst p) \<noteq> 0 \<and> mapUsed st (end1 (fst p)) \<noteq> None) \<or>
            (bid2 (fst p) \<noteq> 0 \<and> mapUsed st (end2 (fst p)) \<noteq> None) \<longrightarrow>
            processEdge thr sc st p = Some st)"
proof (intro conjI allI impI)
  from main_c_inv [OF assms, of thr]
  show "\<exists>st. main_c thr rs v' = Some st \<and>
              distinct (all_ends (mapClasses st)) \<and>
              (\<forall>k \<in> set (all_ends (mapClasses st)). mapUsed st k \<noteq> None)"
    by (auto simp: assembler_inv_def)
next
  fix sc :: scores and st :: assembler and p :: "Edge \<times> real"
  assume u: "(bid1 (fst p) \<noteq> 0 \<and> mapUsed st (end1 (fst p)) \<noteq> None) \<or>
             (bid2 (fst p) \<noteq> 0 \<and> mapUsed st (end2 (fst p)) \<noteq> None)"
  have e: "end1 (prepareEdge sc p) = end1 (fst p)" "end2 (prepareEdge sc p) = end2 (fst p)"
    by (simp_all add: end1_def end2_def prepareEdge_ids)
  from u show "processEdge thr sc st p = Some st"
    unfolding processEdge_def Let_def
    using e by (auto simp: end1_def end2_def prepareEdge_ids split: if_splits)
qed

theorem used_ends_disjoint_witness:
  "sort_post (vecEdges (fst (readScores end_in_use)) (snd (readScores end_in_use))) end_in_use_sorted \<and>
   map_option mapClasses (main_c 0 end_in_use end_in_use_sorted) =
     Some [(1, [(mkEdge 1 1 2 1)\<lparr>weight := 0.9, score1 := 0.9\<rparr>])] \<and>
   distinct (all_ends [(1, [(mkEdge 1 1 2 1)\<lparr>weight := 0.9, score1 := 0.9\<rparr>])])"
proof -
  note h = end_in_use_sort_post
  from used_ends_disjoint [OF h, of 0] obtain st where
    st: "main_c 0 end_in_use end_in_use_sorted = Some st"
    and d: "distinct (all_ends (mapClasses st))"
    by blast
  from st end_in_use_result have "mapClasses st = [(1, [(mkEdge 1 1 2 1)\<lparr>weight := 0.9, score1 := 0.9\<rparr>])]"
    by simp
  with d h end_in_use_result show ?thesis by simp
qed

subsection \<open>The chain assembler: the sentinel\<close>

text \<open>
  Claim C7 says that block 0 never occurs at a junction inside a chain. The first and
  the fourth case of \<open>insertEdge\<close> and of \<open>mergeLists\<close> join edges of opposite
  direction without the test for block 0 that the second and the third case make. The
  score records \<open>0 5\<close> and \<open>7 0\<close> yield the edges \<open>(0, 1, 5, 1)\<close> and
  \<open>(0, -1, 7, -1)\<close>: \<open>insertEdge\<close> joins them through block 0, where it refuses the
  same join for the reversed form \<open>(7, 1, 0, 1)\<close>; \<open>mergeLists\<close> does the same for two
  chains; and the whole run on the two records leaves the chain 7, 0, 5.
\<close>

theorem sentinel_junction_reached:
  "map_option (\<lambda>r. (fst r, fst (snd r))) (insertEdge [mkEdge 0 1 5 1] (mkEdge 0 (- 1) 7 (- 1)) Map.empty) =
     Some (SUCCESS, [mkEdge 7 1 0 1, mkEdge 0 1 5 1]) \<and>
   map_option (\<lambda>r. (fst r, fst (snd r))) (insertEdge [mkEdge 0 1 5 1] (mkEdge 7 1 0 1) Map.empty) =
     Some (FAIL, [mkEdge 0 1 5 1]) \<and>
   mergeStep 1 2 ([mkEdge 0 1 5 1], [(1, [mkEdge 0 1 5 1]), (2, [mkEdge 0 (- 1) 7 (- 1)])]) =
     Some ([mkEdge 7 1 0 1, mkEdge 0 1 5 1], [(1, [mkEdge 0 1 5 1])]) \<and>
   sentinel_inside [mkEdge 7 1 0 1, mkEdge 0 1 5 1] \<and>
   sort_post (vecEdges (fst (readScores two_ends)) (snd (readScores two_ends))) two_ends_sorted \<and>
   map_option mapClasses (main_c 0 two_ends two_ends_sorted) =
     Some [(1, [(mkEdge 7 1 0 1)\<lparr>weight := 0.8, score1 := 0.8\<rparr>,
                (mkEdge 0 1 5 1)\<lparr>weight := 0.9, score1 := 0.9\<rparr>])]"
  by (simp add: sentinel_inside_def sort_post_def cmp_def two_ends_def two_ends_sorted_def erase_def assembler_eval)

subsection \<open>The chain assembler: threshold and order\<close>

lemma vecEdges_set:
  "p \<in> set (vecEdges sc n) \<longleftrightarrow>
     (\<exists>i d1 j d2. 0 \<le> i \<and> i \<le> n \<and> 0 \<le> j \<and> j \<le> n \<and> i \<noteq> j \<and>
        (d1 = - 1 \<or> d1 = 1) \<and> (d2 = - 1 \<or> d2 = 1) \<and>
        sc (i, d1, j, d2) = Some (snd p) \<and> snd p > 0 \<and> fst p = mkEdge i d1 j d2)"
proof -
  have cw: "(0 < compute_weight i d1 j d2 sc \<and> p = (mkEdge i d1 j d2, compute_weight i d1 j d2 sc)) \<longleftrightarrow>
        (sc (i, d1, j, d2) = Some (snd p) \<and> snd p > 0 \<and> fst p = mkEdge i d1 j d2)" for i d1 j d2
    by (cases p) (auto simp: compute_weight_def split: option.splits)
  have "p \<in> set (vecEdges sc n) \<longleftrightarrow>
      (\<exists>i\<in>{0..n}. \<exists>d1\<in>{- 1, 1}. \<exists>j\<in>{0..n}. \<exists>d2\<in>{- 1, 1}.
         i \<noteq> j \<and> (0 < compute_weight i d1 j d2 sc \<and> p = (mkEdge i d1 j d2, compute_weight i d1 j d2 sc)))"
    unfolding vecEdges_def Let_def by (simp only: set_concat set_map) (auto split: if_splits)
  also have "\<dots> \<longleftrightarrow> (\<exists>i\<in>{0..n}. \<exists>d1\<in>{- 1, 1}. \<exists>j\<in>{0..n}. \<exists>d2\<in>{- 1, 1}.
         i \<noteq> j \<and> sc (i, d1, j, d2) = Some (snd p) \<and> snd p > 0 \<and> fst p = mkEdge i d1 j d2)"
    by (simp only: cw)
  also have "\<dots> \<longleftrightarrow> (\<exists>i d1 j d2. 0 \<le> i \<and> i \<le> n \<and> 0 \<le> j \<and> j \<le> n \<and> i \<noteq> j \<and>
        (d1 = - 1 \<or> d1 = 1) \<and> (d2 = - 1 \<or> d2 = 1) \<and>
        sc (i, d1, j, d2) = Some (snd p) \<and> snd p > 0 \<and> fst p = mkEdge i d1 j d2)"
    by (simp only: Bex_def atLeastAtMost_iff insert_iff empty_iff) blast
  finally show ?thesis .
qed

lemma sort_key_post: "sort_post v (sort_key (\<lambda>p. - snd p) v)"
proof -
  have "sorted (map (\<lambda>p. - snd p) (sort_key (\<lambda>p. - snd p) v))" by (rule sorted_sort_key)
  then have "sorted_wrt (\<lambda>p q. \<not> cmp q p) (sort_key (\<lambda>p. - snd p) v)"
    by (simp add: sorted_wrt_map cmp_def not_less)
  then show ?thesis by (simp add: sort_post_def)
qed

lemma tied_scores: "readScores (rev tied) = readScores tied"
  by (auto simp: readScores_def readRecord_def tied_def Let_def fun_eq_iff)


text \<open>
  Claim C6 says that edges of equal weight are processed in the order of the input.
  The records \<open>1 3 0.5\<close>, \<open>1 2 0.5\<close> and the same two records in the other order
  leave the same score table, so whatever the sort does, the program gives the same
  result on both files; but the order of the input asks for the contig \<open>1 3\<close> on the
  first file and for the contig \<open>1 2\<close> on the second. The vector handed to the sort
  is in the key order of \<open>mapWeights\<close>, with the edge \<open>1 2\<close> ahead of the edge
  \<open>1 3\<close>, and it is sorted already; a sort that leaves it as it is gives the contig
  \<open>1 2\<close> on the first file, where the record \<open>1 3\<close> comes first.
\<close>

theorem tie_order_not_input_order:
  "insertion_order_spec tied =
     [(mkEdge 1 1 3 1, 0.5), (mkEdge 3 (- 1) 1 (- 1), 0.5),
      (mkEdge 1 1 2 1, 0.5), (mkEdge 2 (- 1) 1 (- 1), 0.5)] \<and>
   insertion_order_spec (rev tied) =
     [(mkEdge 1 1 2 1, 0.5), (mkEdge 2 (- 1) 1 (- 1), 0.5),
      (mkEdge 1 1 3 1, 0.5), (mkEdge 3 (- 1) 1 (- 1), 0.5)] \<and>
   map_option mapClasses (main_c 0 tied (insertion_order_spec tied)) =
     Some [(1, [(mkEdge 1 1 3 1)\<lparr>weight := 0.5, score1 := 0.5\<rparr>])] \<and>
   map_option mapClasses (main_c 0 (rev tied) (insertion_order_spec (rev tied))) =
     Some [(1, [(mkEdge 1 1 2 1)\<lparr>weight := 0.5, score1 := 0.5\<rparr>])] \<and>
   (\<forall>srt gMIN_WEIGHT. main_srt srt gMIN_WEIGHT (rev tied) = main_srt srt gMIN_WEIGHT tied) \<and>
   vecEdges (fst (readScores tied)) (snd (readScores tied)) = tied_a \<and>
   sort_post tied_a tied_a \<and>
   map_option mapClasses (main_srt (\<lambda>v. v) 0 tied) =
     Some [(1, [(mkEdge 1 1 2 1)\<lparr>weight := 0.5, score1 := 0.5\<rparr>])]"
proof -
  have a: "insertion_order_spec tied =
     [(mkEdge 1 1 3 1, 0.5), (mkEdge 3 (- 1) 1 (- 1), 0.5),
      (mkEdge 1 1 2 1, 0.5), (mkEdge 2 (- 1) 1 (- 1), 0.5)]"
    "insertion_order_spec (rev tied) =
     [(mkEdge 1 1 2 1, 0.5), (mkEdge 2 (- 1) 1 (- 1), 0.5),
      (mkEdge 1 1 3 1, 0.5), (mkEdge 3 (- 1) 1 (- 1), 0.5)]"
    by (simp_all add: insertion_order_spec_def record_edges_def tied_def Let_def mkEdge_def)
  have b: "map_option mapClasses (main_c 0 tied (insertion_order_spec tied)) =
     Some [(1, [(mkEdge 1 1 3 1)\<lparr>weight := 0.5, score1 := 0.5\<rparr>])]"
    unfolding a by (simp add: tied_def assembler_eval)
  have c: "map_option mapClasses (main_c 0 (rev tied) (insertion_order_spec (rev tied))) =
     Some [(1, [(mkEdge 1 1 2 1)\<lparr>weight := 0.5, score1 := 0.5\<rparr>])]"
    unfolding a by (simp add: tied_def assembler_eval)
  have d: "\<forall>srt gMIN_WEIGHT. main_srt srt gMIN_WEIGHT (rev tied) = main_srt srt gMIN_WEIGHT tied"
    by (simp add: main_srt_def main_c_def tied_scores)
  have e: "vecEdges (fst (readScores tied)) (snd (readScores tied)) = tied_a"
    by (simp add: tied_def tied_a_def assembler_eval)
  have f: "sort_post tied_a tied_a"
    by (simp add: sort_post_def cmp_def tied_a_def)
  have g: "map_option mapClasses (main_srt (\<lambda>v. v) 0 tied) =
     Some [(1, [(mkEdge 1 1 2 1)\<lparr>weight := 0.5, score1 := 0.5\<rparr>])]"
    unfolding main_srt_def e by (simp add: tied_def tied_a_def assembler_eval)
  from a b c d e f g show ?thesis by (intro conjI)
qed

text \<open>
  Claim C6, amended. For every sort that returns its vector sorted by \<open>cmp\<close>: the
  vector holds exactly the edges between two different blocks whose score is above 0;
  an edge whose weight is below the threshold leaves the state unchanged, and the run
  equals the run on the vector without these edges; the edges that remain are processed
  in non-increasing weight order; and the result depends on the records only through
  the score table and the block count they leave, so two files that leave the same table,
  and in particular two runs on the same file, give the same classes, whereas the order
  of the records among equal weights plays no part.
\<close>

theorem threshold_and_order:
  assumes "\<forall>v. sort_post v (srt v)"
  shows "(\<forall>p. p \<in> set (srt (vecEdges sc n)) \<longleftrightarrow>
            (\<exists>i d1 j d2. 0 \<le> i \<and> i \<le> n \<and> 0 \<le> j \<and> j \<le> n \<and> i \<noteq> j \<and>
               (d1 = - 1 \<or> d1 = 1) \<and> (d2 = - 1 \<or> d2 = 1) \<and>
               sc (i, d1, j, d2) = Some (snd p) \<and> snd p > 0 \<and> fst p = mkEdge i d1 j d2)) \<and>
         greedy thr sc st (srt (vecEdges sc n)) =
           greedy thr sc st (filter (\<lambda>p. \<not> snd p < thr) (srt (vecEdges sc n))) \<and>
         (\<forall>p. snd p < thr \<longrightarrow> processEdge thr sc st p = Some st) \<and>
         sorted_wrt (\<lambda>p q. snd q \<le> snd p) (filter (\<lambda>p. \<not> snd p < thr) (srt (vecEdges sc n))) \<and>
         (\<forall>rs rs'. readScores rs' = readScores rs \<longrightarrow> main_srt srt thr rs' = main_srt srt thr rs)"
proof -
  from assms have sp: "sort_post (vecEdges sc n) (srt (vecEdges sc n))" by blast
  then have "set (srt (vecEdges sc n)) = set (vecEdges sc n)"
    by (auto simp: sort_post_def dest: mset_eq_setD)
  then have c1: "\<forall>p. p \<in> set (srt (vecEdges sc n)) \<longleftrightarrow>
            (\<exists>i d1 j d2. 0 \<le> i \<and> i \<le> n \<and> 0 \<le> j \<and> j \<le> n \<and> i \<noteq> j \<and>
               (d1 = - 1 \<or> d1 = 1) \<and> (d2 = - 1 \<or> d2 = 1) \<and>
               sc (i, d1, j, d2) = Some (snd p) \<and> snd p > 0 \<and> fst p = mkEdge i d1 j d2)"
    by (simp only: vecEdges_set) simp
  from sp have "sorted_wrt (\<lambda>p q. snd q \<le> snd p) (srt (vecEdges sc n))"
    by (simp add: sort_post_def cmp_def not_less)
  then have c4: "sorted_wrt (\<lambda>p q. snd q \<le> snd p) (filter (\<lambda>p. \<not> snd p < thr) (srt (vecEdges sc n)))"
    by (rule sorted_wrt_filter)
  have c5: "\<forall>rs rs'. readScores rs' = readScores rs \<longrightarrow> main_srt srt thr rs' = main_srt srt thr rs"
    by (simp add: main_srt_def main_c_def)
  from c1 greedy_filter [of thr sc st] processEdge_below [of _ thr sc st] c4 c5
  show ?thesis by (intro conjI) blast+
qed


theorem threshold_and_order_witness:
  "(\<forall>v. sort_post v (sort_key (\<lambda>p. - snd p) v)) \<and>
   sort_key (\<lambda>p. - snd p) (vecEdges (fst (readScores end_in_use)) 3) = end_in_use_sorted \<and>
   filter (\<lambda>p. \<not> snd p < 0.6) end_in_use_sorted =
     [(mkEdge 1 1 2 1, 0.9), (mkEdge 2 (- 1) 1 (- 1), 0.9)] \<and>
   greedy 0.6 (fst (readScores end_in_use)) init_assembler end_in_use_sorted =
     greedy 0.6 (fst (readScores end_in_use)) init_assembler
       [(mkEdge 1 1 2 1, 0.9), (mkEdge 2 (- 1) 1 (- 1), 0.9)] \<and>
   processEdge 0.6 (fst (readScores end_in_use)) init_assembler (mkEdge 1 1 3 1, 0.5) = Some init_assembler \<and>
   sorted_wrt (\<lambda>p q. snd q \<le> snd p) [(mkEdge 1 1 2 1, 0.9 :: real), (mkEdge 2 (- 1) 1 (- 1), 0.9)] \<and>
   (mkEdge 1 1 3 1, 0.5) \<in> set end_in_use_sorted \<and>
   readScores (rev tied) = readScores tied \<and>
   main_srt (sort_key (\<lambda>p. - snd p)) 0.6 (rev tied) = main_srt (sort_key (\<lambda>p. - snd p)) 0.6 tied"
proof -
  have h: "\<forall>v. sort_post v (sort_key (\<lambda>p. - snd p) v)" by (simp add: sort_key_post)
  have v: "sort_key (\<lambda>p. - snd p) (vecEdges (fst (readScores end_in_use)) 3) = end_in_use_sorted"
    by (simp add: end_in_use_sorted_def end_in_use_def assembler_eval)
  have f: "filter (\<lambda>p. \<not> snd p < 0.6) end_in_use_sorted =
     [(mkEdge 1 1 2 1, 0.9), (mkEdge 2 (- 1) 1 (- 1), 0.9)]"
    by (simp add: end_in_use_sorted_def)
  note main_fact = threshold_and_order [OF h, of "fst (readScores end_in_use)" 3 "0.6" init_assembler]
  have "\<exists>i d1 j d2. 0 \<le> i \<and> i \<le> 3 \<and> 0 \<le> j \<and> j \<le> 3 \<and> i \<noteq> j \<and>
          (d1 = - 1 \<or> d1 = 1) \<and> (d2 = - 1 \<or> d2 = 1) \<and>
          fst (readScores end_in_use) (i, d1, j, d2) = Some (snd (mkEdge 1 1 3 1, 0.5 :: real)) \<and>
          snd (mkEdge 1 1 3 1, 0.5 :: real) > 0 \<and> fst (mkEdge 1 1 3 1, 0.5 :: real) = mkEdge i d1 j d2"
    by (rule exI [of _ 1], rule exI [of _ 1], rule exI [of _ 3], rule exI [of _ 1])
      (simp add: end_in_use_def readScores_def readRecord_def Let_def)
  with main_fact [THEN conjunct1, rule_format, of "(mkEdge 1 1 3 1, 0.5)"]
  have m: "(mkEdge 1 1 3 1, 0.5) \<in> set end_in_use_sorted"
    unfolding v by blast
  from main_fact [THEN conjunct2, THEN conjunct1]
  have g: "greedy 0.6 (fst (readScores end_in_use)) init_assembler end_in_use_sorted =
     greedy 0.6 (fst (readScores end_in_use)) init_assembler
       [(mkEdge 1 1 2 1, 0.9), (mkEdge 2 (- 1) 1 (- 1), 0.9)]"
    unfolding v f .
  from main_fact [THEN conjunct2, THEN conjunct2, THEN conjunct1, rule_format, of "(mkEdge 1 1 3 1, 0.5)"]
  have b: "processEdge 0.6 (fst (readScores end_in_use)) init_assembler (mkEdge 1 1 3 1, 0.5) = Some init_assembler"
    by simp
  from main_fact [THEN conjunct2, THEN conjunct2, THEN conjunct2, THEN conjunct1]
  have s: "sorted_wrt (\<lambda>p q. snd q \<le> snd p) [(mkEdge 1 1 2 1, 0.9 :: real), (mkEdge 2 (- 1) 1 (- 1), 0.9)]"
    unfolding v f .
  from main_fact [THEN conjunct2, THEN conjunct2, THEN conjunct2, THEN conjunct2, rule_format, of "rev tied" tied]
    tied_scores
  have d: "main_srt (sort_key (\<lambda>p. - snd p)) 0.6 (rev tied) = main_srt (sort_key (\<lambda>p. - snd p)) 0.6 tied"
    by simp
  from h v f g b s m tied_scores d show ?thesis by (intro conjI)
qed


subsection \<open>Re-rooting: auxiliary facts\<close>




lemma same_data_refl [simp]: "same_data h h"
  by (simp add: same_data_def)


lemma same_data_upd_links:
  "h x = Some n \<Longrightarrow> distalpha n' = distalpha n \<Longrightarrow> name n' = name n \<Longrightarrow> same_data h (h(x \<mapsto> n'))"
  by (simp add: same_data_def)


lemma same_links_refl [simp]: "same_links h h"
  by (simp add: same_links_def)


























subsection \<open>Re-rooting\<close>




subsection \<open>The likelihood: auxiliary facts\<close>

lemma subtrees_trans: "n \<in> set (subtrees t) \<Longrightarrow> t \<in> set (subtrees rt) \<Longrightarrow> n \<in> set (subtrees rt)"
  by (induction rt) auto

lemma subtrees_addr: "n \<in> set (subtrees t) \<Longrightarrow> \<exists>a. node_addr n = Some a \<and> a \<in> set (addrs t)"
  by (induction t) auto

lemma subtrees_self: "t \<noteq> PNull \<Longrightarrow> t \<in> set (subtrees t)"
  by (cases t) auto

lemma addr_inj:
  "distinct (addrs rt) \<Longrightarrow> n \<in> set (subtrees rt) \<Longrightarrow> m \<in> set (subtrees rt) \<Longrightarrow>
     node_addr n = node_addr m \<Longrightarrow> n = m"
proof (induction rt arbitrary: n m)
  case PNull
  then show ?case by simp
next
  case (PNode l a nm d gn r)
  from PNode.prems(1) have d: "a \<notin> set (addrs l)" "a \<notin> set (addrs r)" "distinct (addrs l)" "distinct (addrs r)"
    "set (addrs l) \<inter> set (addrs r) = {}" by auto
  have top: "x = PNode l a nm d gn r" if "x \<in> set (subtrees (PNode l a nm d gn r))" "node_addr x = Some a" for x
  proof -
    from that(1) consider "x = PNode l a nm d gn r" | "x \<in> set (subtrees l)" | "x \<in> set (subtrees r)" by auto
    then show ?thesis
    proof cases
      case 1 then show ?thesis .
    next
      case 2 with subtrees_addr [of x l] that(2) d show ?thesis by auto
    next
      case 3 with subtrees_addr [of x r] that(2) d show ?thesis by auto
    qed
  qed
  from PNode.prems(2,3) consider
    "n = PNode l a nm d gn r" | "m = PNode l a nm d gn r"
    | "n \<in> set (subtrees l)" "m \<in> set (subtrees l)"
    | "n \<in> set (subtrees r)" "m \<in> set (subtrees r)"
    | "n \<in> set (subtrees l)" "m \<in> set (subtrees r)"
    | "n \<in> set (subtrees r)" "m \<in> set (subtrees l)"
    by auto
  then show ?case
  proof cases
    case 1
    with top [of m] PNode.prems(3,4) show ?thesis by simp
  next
    case 2
    with top [of n] PNode.prems(2,4) show ?thesis by simp
  next
    case 3 with PNode.IH(1) d PNode.prems(4) show ?thesis by blast
  next
    case 4 with PNode.IH(2) d PNode.prems(4) show ?thesis by blast
  next
    case 5
    with subtrees_addr [of n l] subtrees_addr [of m r] d PNode.prems(4) show ?thesis by auto
  next
    case 6
    with subtrees_addr [of n r] subtrees_addr [of m l] d PNode.prems(4) show ?thesis by auto
  qed
qed


lemma subtrees_not_PNull: "PNull \<notin> set (subtrees t)"
  by (induction t) auto

lemma subtrees_children:
  "PNode l a nm d gn r \<in> set (subtrees rt) \<Longrightarrow> l \<noteq> PNull \<Longrightarrow> l \<in> set (subtrees rt)"
  "PNode l a nm d gn r \<in> set (subtrees rt) \<Longrightarrow> r \<noteq> PNull \<Longrightarrow> r \<in> set (subtrees rt)"
proof -
  assume n: "PNode l a nm d gn r \<in> set (subtrees rt)"
  { assume "l \<noteq> PNull"
    then have "l \<in> set (subtrees (PNode l a nm d gn r))" by (simp add: subtrees_self)
    from this n show "l \<in> set (subtrees rt)" by (rule subtrees_trans) }
  { assume "r \<noteq> PNull"
    then have "r \<in> set (subtrees (PNode l a nm d gn r))" by (simp add: subtrees_self)
    from this n show "r \<in> set (subtrees rt)" by (rule subtrees_trans) }
qed

lemma cache_ok_lp_upd:
  assumes "distinct (addrs rt)" "n \<in> set (subtrees rt)" "node_addr n = Some a"
    "cache_ok g DPPI Leaf rt c"
  shows "cache_ok g DPPI Leaf rt (c\<lparr>lp_cache := (lp_cache c)((a, i, j) \<mapsto> branchProb g n i j)\<rparr>)"
  unfolding cache_ok_def
proof (intro ballI allI conjI impI)
  fix m i' j' v
  assume m: "m \<in> set (subtrees rt)"
  { assume h: "lp_cache (c\<lparr>lp_cache := (lp_cache c)((a, i, j) \<mapsto> branchProb g n i j)\<rparr>)
             (the (node_addr m), i', j') = Some v"
    show "v = branchProb g m i' j'"
    proof (cases "(the (node_addr m), i', j') = (a, i, j)")
      case True
      from m obtain b where b: "node_addr m = Some b" using subtrees_addr by blast
      with True assms(3) have "node_addr n = node_addr m" by simp
      with assms(1,2) m have "n = m" by (rule addr_inj)
      with True h show ?thesis by simp
    next
      case False
      with h have "lp_cache c (the (node_addr m), i', j') = Some v" by (auto split: if_splits)
      with assms(4) m show ?thesis unfolding cache_ok_def by blast
    qed }
  { assume "ll_cache (c\<lparr>lp_cache := (lp_cache c)((a, i, j) \<mapsto> branchProb g n i j)\<rparr>)
             (the (node_addr m), i', j') = Some v"
    then have "ll_cache c (the (node_addr m), i', j') = Some v" by simp
    with assms(4) m show "v = preLikelihood_spec g DPPI Leaf m i' j'"
      unfolding cache_ok_def by blast }
qed

lemma cache_ok_ll_upd:
  assumes "distinct (addrs rt)" "n \<in> set (subtrees rt)" "node_addr n = Some a"
    "cache_ok g DPPI Leaf rt c"
  shows "cache_ok g DPPI Leaf rt
           (c\<lparr>ll_cache := (ll_cache c)((a, i, j) \<mapsto> preLikelihood_spec g DPPI Leaf n i j)\<rparr>)"
  unfolding cache_ok_def
proof (intro ballI allI conjI impI)
  fix m i' j' v
  assume m: "m \<in> set (subtrees rt)"
  { assume h: "ll_cache (c\<lparr>ll_cache := (ll_cache c)((a, i, j) \<mapsto> preLikelihood_spec g DPPI Leaf n i j)\<rparr>)
             (the (node_addr m), i', j') = Some v"
    show "v = preLikelihood_spec g DPPI Leaf m i' j'"
    proof (cases "(the (node_addr m), i', j') = (a, i, j)")
      case True
      from m obtain b where b: "node_addr m = Some b" using subtrees_addr by blast
      with True assms(3) have "node_addr n = node_addr m" by simp
      with assms(1,2) m have "n = m" by (rule addr_inj)
      with True h show ?thesis by simp
    next
      case False
      with h have "ll_cache c (the (node_addr m), i', j') = Some v" by (auto split: if_splits)
      with assms(4) m show ?thesis unfolding cache_ok_def by blast
    qed }
  { assume "lp_cache (c\<lparr>ll_cache := (ll_cache c)((a, i, j) \<mapsto> preLikelihood_spec g DPPI Leaf n i j)\<rparr>)
             (the (node_addr m), i', j') = Some v"
    then have "lp_cache c (the (node_addr m), i', j') = Some v" by simp
    with assms(4) m show "v = branchProb g m i' j'"
      unfolding cache_ok_def by blast }
qed

lemma getLP_ok:
  assumes "distinct (addrs rt)" "child \<in> set (subtrees rt)" "cache_ok g DPPI Leaf rt c"
  shows "\<exists>c'. getLP g child i s c = Some (branchProb g child i s, c') \<and> cache_ok g DPPI Leaf rt c'"
proof (cases child)
  case PNull
  with assms(2) show ?thesis by (simp add: subtrees_not_PNull)
next
  case (PNode l a nm d gn r)
  then have na: "node_addr child = Some a" by simp
  show ?thesis
  proof (cases "lp_cache c (a, i, s)")
    case None
    from cache_ok_lp_upd [OF assms(1,2) na assms(3), of i s] None PNode
    show ?thesis by (simp add: branchProb_def Let_def)
  next
    case (Some v)
    with assms(2,3) na have "v = branchProb g child i s" unfolding cache_ok_def by force
    with Some PNode assms(3) show ?thesis by simp
  qed
qed

lemma leaf_entry:
  assumes "leaves_ok Leaf rt" "PNode PNull a nm d gn PNull \<in> set (subtrees rt)"
  shows "\<exists>lf. findTreeNode Leaf nm = Some lf \<and>
           find (\<lambda>lf. nl_addr lf = PNode PNull a nm d gn PNull) Leaf = Some lf"
proof -
  from assms obtain lf where lf: "findTreeNode Leaf nm = Some lf" "nl_addr lf = PNode PNull a nm d gn PNull"
    unfolding leaves_ok_def by (fastforce split: option.splits)
  have "find (\<lambda>x. node_name (nl_addr x) = nm) xs = Some lf \<Longrightarrow>
          find (\<lambda>x. nl_addr x = PNode PNull a nm d gn PNull) xs = Some lf" for xs
    using lf(2) by (induction xs) (auto split: if_splits)
  with lf(1) show ?thesis unfolding findTreeNode_def by blast
qed

lemma sum_upto_drop_last:
  "\<not> P z \<Longrightarrow> (\<Sum>s\<leftarrow>[a..z]. if P s then f s else (0::real)) = (\<Sum>s\<leftarrow>[a..z - 1]. if P s then f s else 0)"
  by (cases "a \<le> z") (simp_all add: upto_rec2 [of a z])


lemma preLikelihood_refines_aux:
  "(\<forall>rt. distinct (addrs rt) \<and> leaves_ok Leaf rt \<and> \<not> compatible g DPPI (Z g) j \<and>
         t \<in> set (subtrees rt) \<and> cache_ok g DPPI Leaf rt c \<longrightarrow>
      (\<exists>c'. preLikelihood g DPPI Leaf t i j c = Some (preLikelihood_spec g DPPI Leaf t i j, c') \<and>
            cache_ok g DPPI Leaf rt c'))"
  "(\<forall>rt. distinct (addrs rt) \<and> leaves_ok Leaf rt \<and> \<not> compatible g DPPI (Z g) j \<and>
         t \<in> set (subtrees rt) \<and> cache_ok g DPPI Leaf rt c \<longrightarrow>
      (\<exists>c'. sumLoop g DPPI Leaf t i j s acc c =
              Some (acc + (\<Sum>s'\<leftarrow>[s..Z g - 1]. summand g DPPI Leaf t i j s'), c') \<and>
            cache_ok g DPPI Leaf rt c'))"
  "(\<forall>rt. distinct (addrs rt) \<and> leaves_ok Leaf rt \<and> \<not> compatible g DPPI (Z g) j \<and>
         t \<in> set (subtrees rt) \<and> cache_ok g DPPI Leaf rt c \<longrightarrow>
      (\<exists>c'. getLL g DPPI Leaf t i j c = Some (preLikelihood_spec g DPPI Leaf t i j, c') \<and>
            cache_ok g DPPI Leaf rt c'))"
proof (induction g DPPI Leaf t i j c and g DPPI Leaf t i j s acc c and g DPPI Leaf t i j c
    rule: preLikelihood_sumLoop_getLL.induct)
  case (1 g DPPI Leaf i j c)
  show ?case by (simp add: subtrees_not_PNull)
next
  case (2 g DPPI Leaf l a nm d gn r i j c)
  show ?case
  proof (intro allI impI, elim conjE)
    fix rt
    assume dist: "distinct (addrs rt)" and lv: "leaves_ok Leaf rt"
      and nz: "\<not> compatible g DPPI (Z g) j"
      and mem: "PNode l a nm d gn r \<in> set (subtrees rt)"
      and ok: "cache_ok g DPPI Leaf rt c"
    show "\<exists>c'. preLikelihood g DPPI Leaf (PNode l a nm d gn r) i j c =
               Some (preLikelihood_spec g DPPI Leaf (PNode l a nm d gn r) i j, c') \<and>
               cache_ok g DPPI Leaf rt c'"
    proof (cases "l = PNull \<and> r = PNull")
      case True
      with mem have mem': "PNode PNull a nm d gn PNull \<in> set (subtrees rt)" by simp
      from leaf_entry [OF lv mem'] obtain lf where
        "findTreeNode Leaf nm = Some lf"
        "find (\<lambda>lf. nl_addr lf = PNode PNull a nm d gn PNull) Leaf = Some lf" by blast
      with True ok show ?thesis by simp
    next
      case False
      define fl where "fl = (if l = PNull then 1 else (\<Sum>s\<leftarrow>[A g..Z g]. summand g DPPI Leaf l i j s))"
      define fr where "fr = (if r = PNull then 1 else (\<Sum>s\<leftarrow>[A g..Z g]. summand g DPPI Leaf r i j s))"
      have spec: "preLikelihood_spec g DPPI Leaf (PNode l a nm d gn r) i j = fl * fr"
        using False by (simp add: fl_def fr_def summand_def [abs_def])
      have "\<exists>c1. (if l = PNull then Some (1, c) else sumLoop g DPPI Leaf l i j (A g) 0 c) = Some (fl, c1)
              \<and> cache_ok g DPPI Leaf rt c1"
      proof (cases "l = PNull")
        case True
        with ok show ?thesis by (simp add: fl_def)
      next
        case nl: False
        from subtrees_children(1) [OF mem nl] have "l \<in> set (subtrees rt)" .
        with "2.IH"(1) [OF False nl, rule_format, of rt] dist lv nz ok
        obtain c1 where "sumLoop g DPPI Leaf l i j (A g) 0 c =
            Some (0 + (\<Sum>s'\<leftarrow>[A g..Z g - 1]. summand g DPPI Leaf l i j s'), c1)"
          "cache_ok g DPPI Leaf rt c1" by blast
        moreover have "(\<Sum>s\<leftarrow>[A g..Z g]. summand g DPPI Leaf l i j s)
            = (\<Sum>s\<leftarrow>[A g..Z g - 1]. summand g DPPI Leaf l i j s)"
          unfolding summand_def using nz by (rule sum_upto_drop_last)
        ultimately show ?thesis using nl by (simp add: fl_def)
      qed
      then obtain c1 where l1: "(if l = PNull then Some (1, c) else sumLoop g DPPI Leaf l i j (A g) 0 c) = Some (fl, c1)"
        and ok1: "cache_ok g DPPI Leaf rt c1" by blast
      have "\<exists>c2. (if r = PNull then Some (1, c1) else sumLoop g DPPI Leaf r i j (A g) 0 c1) = Some (fr, c2)
              \<and> cache_ok g DPPI Leaf rt c2"
      proof (cases "r = PNull")
        case True
        with ok1 show ?thesis by (simp add: fr_def)
      next
        case nr: False
        from subtrees_children(2) [OF mem nr] have "r \<in> set (subtrees rt)" .
        with "2.IH"(2) [OF False l1 nr, unfolded snd_conv, rule_format, of rt] dist lv nz ok1
        obtain c2 where "sumLoop g DPPI Leaf r i j (A g) 0 c1 =
            Some (0 + (\<Sum>s'\<leftarrow>[A g..Z g - 1]. summand g DPPI Leaf r i j s'), c2)"
          "cache_ok g DPPI Leaf rt c2" by blast
        moreover have "(\<Sum>s\<leftarrow>[A g..Z g]. summand g DPPI Leaf r i j s)
            = (\<Sum>s\<leftarrow>[A g..Z g - 1]. summand g DPPI Leaf r i j s)"
          unfolding summand_def using nz by (rule sum_upto_drop_last)
        ultimately show ?thesis using nr by (simp add: fr_def)
      qed
      then obtain c2 where l2: "(if r = PNull then Some (1, c1) else sumLoop g DPPI Leaf r i j (A g) 0 c1) = Some (fr, c2)"
        and ok2: "cache_ok g DPPI Leaf rt c2" by blast
      have e: "preLikelihood g DPPI Leaf (PNode l a nm d gn r) i j c =
          (case (if l = PNull then Some (1, c) else sumLoop g DPPI Leaf l i j (A g) 0 c) of
             None \<Rightarrow> None
           | Some lc \<Rightarrow>
               (case (if r = PNull then Some (1, snd lc)
                      else sumLoop g DPPI Leaf r i j (A g) 0 (snd lc)) of
                  None \<Rightarrow> None
                | Some rc \<Rightarrow> Some (fst lc * fst rc, snd rc)))"
        using False by auto
      have "preLikelihood g DPPI Leaf (PNode l a nm d gn r) i j c = Some (fl * fr, c2)"
        by (simp only: e l1 option.case snd_conv fst_conv l2)
      with spec ok2 show ?thesis by simp
    qed
  qed
next
  case (3 g DPPI Leaf child i j s acc c)
  show ?case
  proof (intro allI impI, elim conjE)
    fix rt
    assume dist: "distinct (addrs rt)" and lv: "leaves_ok Leaf rt"
      and nz: "\<not> compatible g DPPI (Z g) j"
      and mem: "child \<in> set (subtrees rt)"
      and ok: "cache_ok g DPPI Leaf rt c"
    show "\<exists>c'. sumLoop g DPPI Leaf child i j s acc c =
               Some (acc + (\<Sum>s'\<leftarrow>[s..Z g - 1]. summand g DPPI Leaf child i j s'), c') \<and>
               cache_ok g DPPI Leaf rt c'"
    proof (cases "s < Z g")
      case False
      then have "[s..Z g - 1] = []" by simp
      with False ok show ?thesis by (simp add: sumLoop.simps [of g DPPI Leaf child i j s])
    next
      case lt: True
      then have up: "[s..Z g - 1] = s # [s + 1..Z g - 1]" by (simp add: upto_rec1)
      show ?thesis
      proof (cases "Val g DPPI s j = YES")
        case False
        with "3.IH"(3) [OF lt False, rule_format, of rt] dist lv nz mem ok
        obtain c' where "sumLoop g DPPI Leaf child i j (s + 1) acc c =
            Some (acc + (\<Sum>s'\<leftarrow>[s + 1..Z g - 1]. summand g DPPI Leaf child i j s'), c')"
          "cache_ok g DPPI Leaf rt c'" by blast
        moreover from False have "summand g DPPI Leaf child i j s = 0"
          by (simp add: summand_def compatible_def)
        ultimately show ?thesis using lt False up
          by (simp add: sumLoop.simps [of g DPPI Leaf child i j s])
      next
        case yes: True
        from getLP_ok [OF dist mem ok, of i s] obtain c1 where
          lp: "getLP g child i s c = Some (branchProb g child i s, c1)"
          and ok1: "cache_ok g DPPI Leaf rt c1" by blast
        from "3.IH"(1) [OF lt yes lp, unfolded snd_conv, rule_format, of rt] dist lv nz mem ok1
        obtain c2 where ll: "getLL g DPPI Leaf child s j c1 =
            Some (preLikelihood_spec g DPPI Leaf child s j, c2)"
          and ok2: "cache_ok g DPPI Leaf rt c2" by blast
        from ll have ll': "getLL g DPPI Leaf child s j (snd (branchProb g child i s, c1)) =
            Some (preLikelihood_spec g DPPI Leaf child s j, c2)" by simp
        from "3.IH"(2) [OF lt yes lp ll', unfolded fst_conv snd_conv, rule_format, of rt] dist lv nz mem ok2
        obtain c' where sl: "sumLoop g DPPI Leaf child i j (s + 1)
              (acc + branchProb g child i s * preLikelihood_spec g DPPI Leaf child s j) c2 =
            Some (acc + branchProb g child i s * preLikelihood_spec g DPPI Leaf child s j
                   + (\<Sum>s'\<leftarrow>[s + 1..Z g - 1]. summand g DPPI Leaf child i j s'), c')"
          and ok': "cache_ok g DPPI Leaf rt c'" by blast
        from yes have "summand g DPPI Leaf child i j s
            = branchProb g child i s * preLikelihood_spec g DPPI Leaf child s j"
          by (simp add: summand_def compatible_def)
        with lt yes lp ll sl ok' up show ?thesis
          by (simp del: preLikelihood.simps getLL.simps add: sumLoop.simps [of g DPPI Leaf child i j s])
      qed
    qed
  qed
next
  case (4 g DPPI Leaf node i j c)
  show ?case
  proof (intro allI impI, elim conjE)
    fix rt
    assume dist: "distinct (addrs rt)" and lv: "leaves_ok Leaf rt"
      and nz: "\<not> compatible g DPPI (Z g) j"
      and mem: "node \<in> set (subtrees rt)"
      and ok: "cache_ok g DPPI Leaf rt c"
    from mem obtain a where na: "node_addr node = Some a" using subtrees_addr by blast
    show "\<exists>c'. getLL g DPPI Leaf node i j c =
               Some (preLikelihood_spec g DPPI Leaf node i j, c') \<and>
               cache_ok g DPPI Leaf rt c'"
    proof (cases "ll_cache c (a, i, j)")
      case None
      from "4.IH" [OF na None, rule_format, of rt] dist lv nz mem ok
      obtain c1 where pl: "preLikelihood g DPPI Leaf node i j c =
          Some (preLikelihood_spec g DPPI Leaf node i j, c1)"
        and ok1: "cache_ok g DPPI Leaf rt c1" by blast
      from cache_ok_ll_upd [OF dist mem na ok1, of i j] na None pl
      show ?thesis by (simp del: preLikelihood.simps)
    next
      case (Some v)
      with mem ok na have "v = preLikelihood_spec g DPPI Leaf node i j"
        unfolding cache_ok_def by force
      with Some na ok show ?thesis by (simp del: preLikelihood.simps)
    qed
  qed
qed


text \<open>
  \<open>Set\<close> never writes into row \<open>Z\<close>: its row argument is the Lo marker or an element
  reference, which folds to an index below \<open>Z\<close>, and its column stays within the row.
  So \<open>initSets\<close> leaves row \<open>Z\<close> of \<open>DPPI\<close> empty.
\<close>

lemma Val_bit:
  "Val g H i j = (if bit (H ((i * N g + j) div 8)) (nat ((i * N g + j) mod 8)) then 1 else 0)"
  by (simp add: Val_def X_def Let_def and_one_eq bit_iff_odd_drop_bit mod_2_eq_odd)

lemma set_bit_other:
  fixes w :: "8 word"
  assumes "0 \<le> p" "0 \<le> q" "p \<noteq> q"
  shows "bit ((H(p div 8 := H (p div 8) OR push_bit (nat (p mod 8)) 1)) (q div 8)) (nat (q mod 8))
       = bit ((H :: bytes) (q div 8)) (nat (q mod 8))"
proof (cases "q div 8 = p div 8")
  case False
  then show ?thesis by simp
next
  case True
  with assms(3) have "q mod 8 \<noteq> p mod 8" by (metis mult_div_mod_eq)
  moreover have "0 \<le> q mod 8" "0 \<le> p mod 8" by simp_all
  ultimately have "nat (q mod 8) \<noteq> nat (p mod 8)" by simp
  with True show ?thesis by (auto simp: bit_or_iff bit_exp_iff)
qed

lemma Set_row_Z:
  assumes "0 \<le> t" "x = 0 \<or> valid_ele t x" "y = Z (globals_of t) \<or> valid_ele t y" "0 \<le> k"
  shows "Val (globals_of t) (Set (globals_of t) H x y YES) (Z (globals_of t)) k =
         Val (globals_of t) H (Z (globals_of t)) k"
proof -
  let ?g = "globals_of t"
  define i where "i = (if x < 0 then map_c ?g (- x) else x)"
  define j0 where "j0 = (if y < 0 then map_c ?g (- y) else y)"
  define j where "j = (if j0 = A ?g then Z ?g else j0)"
  from assms(1,2) have i: "0 \<le> i" "i \<le> 2 * t"
    by (auto simp: i_def valid_ele_def map_c_def globals_of_def)
  from assms(1,3) have j: "0 \<le> j" "j \<le> 2 * t + 1"
    by (auto simp: j_def j0_def valid_ele_def map_c_def globals_of_def)
  define p where "p = i * N ?g + j"
  define q where "q = Z ?g * N ?g + k"
  have Ng: "N ?g = 2 * t + 2" "Z ?g = 2 * t + 1" by (simp_all add: globals_of_def)
  from i j assms(1) have p0: "0 \<le> p" by (simp add: p_def Ng)
  from assms(1,4) have q0: "0 \<le> q" by (simp add: q_def Ng)
  have "i * (2 * t + 2) \<le> 2 * t * (2 * t + 2)" using i assms(1) by (intro mult_right_mono) auto
  with j assms(4) have "p < q" by (simp add: p_def q_def Ng algebra_simps)
  then have pq: "p \<noteq> q" by simp
  have S: "Set ?g H x y YES = H(p div 8 := H (p div 8) OR push_bit (nat (p mod 8)) 1)"
    by (simp add: Set_def Let_def YES_def X_def p_def i_def j_def j0_def)
  show ?thesis
    unfolding S Val_bit using set_bit_other [OF p0 q0 pq, of H] by (simp add: q_def)
qed

lemma mark_row_Z:
  assumes "0 \<le> t" "x = 0 \<or> valid_ele t x" "y = Z (globals_of t) \<or> valid_ele t y"
    "x' = 0 \<or> valid_ele t x'" "y' = Z (globals_of t) \<or> valid_ele t y'"
    "row_Z_empty t (fst (snd s))"
  shows "row_Z_empty t (fst (snd (mark (globals_of t) x y x' y' s)))"
proof -
  obtain P D th where s: "s = (P, D, th)" by (cases s)
  with assms(6) Set_row_Z [OF assms(1,2,3)] Set_row_Z [OF assms(1,4,5)]
  show ?thesis by (simp add: mark_def row_Z_empty_def)
qed

lemma A_globals: "A (globals_of t) = 0"
  by (simp add: globals_of_def)

lemma valid_neg: "valid_ele t e \<Longrightarrow> valid_ele t (- e)"
  by (auto simp: valid_ele_def)

lemma adjLoop_row_Z:
  "0 \<le> t \<Longrightarrow> valid_ele t prev \<Longrightarrow> \<forall>e \<in> set rest. valid_ele t e \<Longrightarrow> row_Z_empty t (fst (snd s)) \<Longrightarrow>
     row_Z_empty t (fst (snd (adjLoop (globals_of t) prev rest s)))"
proof (induction rest arbitrary: prev s)
  case Nil
  then have "row_Z_empty t (fst (snd (mark (globals_of t) prev (Z (globals_of t)) (A (globals_of t)) (- prev) s)))"
    by (intro mark_row_Z) (simp_all add: valid_neg A_globals)
  then show ?case by simp
next
  case (Cons cur rest)
  from Cons.prems have "row_Z_empty t (fst (snd (mark (globals_of t) prev cur (- cur) (- prev) s)))"
    by (intro mark_row_Z) (simp_all add: valid_neg)
  with Cons.IH [of cur] Cons.prems show ?case by simp
qed

lemma initGenome_row_Z:
  "0 \<le> t \<Longrightarrow> \<forall>ch \<in> set gn. \<forall>e \<in> set ch. valid_ele t e \<Longrightarrow> row_Z_empty t (fst (snd s)) \<Longrightarrow>
     initGenome (globals_of t) gn s = Some s' \<Longrightarrow> row_Z_empty t (fst (snd s'))"
proof (induction gn arbitrary: s)
  case Nil
  then show ?case by simp
next
  case (Cons ch gn)
  from Cons.prems(4) obtain e rest where ch: "ch = e # rest" by (cases ch) simp_all
  define s1 where "s1 = adjLoop (globals_of t) e rest (mark (globals_of t) (A (globals_of t)) e (- e) (Z (globals_of t)) s)"
  from Cons.prems ch have v: "valid_ele t e" "\<forall>e \<in> set rest. valid_ele t e" by simp_all
  from Cons.prems(1,3) v(1) have "row_Z_empty t (fst (snd (mark (globals_of t) (A (globals_of t)) e (- e) (Z (globals_of t)) s)))"
    by (intro mark_row_Z) (simp_all add: valid_neg A_globals)
  with adjLoop_row_Z [OF Cons.prems(1) v] have "row_Z_empty t (fst (snd s1))" by (simp add: s1_def)
  moreover from Cons.prems(4) ch have "initGenome (globals_of t) gn s1 = Some s'" by (simp add: s1_def)
  ultimately show ?case using Cons.IH [of s1] Cons.prems(1,2) by simp
qed

lemma initSets_row_Z:
  "0 \<le> t \<Longrightarrow> \<forall>b \<in> set bs. \<forall>ch \<in> set (node_genome (nl_addr b)). \<forall>e \<in> set ch. valid_ele t e \<Longrightarrow>
     row_Z_empty t D0 \<Longrightarrow> initSets (globals_of t) bs D0 = Some r \<Longrightarrow> row_Z_empty t (snd r)"
proof (induction bs arbitrary: D0 r)
  case Nil
  then show ?case by auto
next
  case (Cons b bs)
  from Cons.prems(4) obtain s where s: "initGenome (globals_of t) (node_genome (nl_addr b)) (nl_P b, D0, nl_there b) = Some s"
    by (auto split: option.splits)
  with Cons.prems(4) obtain r' where r': "initSets (globals_of t) bs (fst (snd s)) = Some r'" "snd r = snd r'"
    by (auto split: option.splits)
  from initGenome_row_Z [OF Cons.prems(1) _ _ s] Cons.prems(2,3)
  have "row_Z_empty t (fst (snd s))" by simp
  with Cons.IH [OF Cons.prems(1) _ _ r'(1)] Cons.prems(2) r'(2) show ?case by simp
qed

lemma initSets_no_state_Z:
  assumes "0 \<le> t" and "\<forall>b \<in> set bs. \<forall>ch \<in> set (node_genome (nl_addr b)). \<forall>e \<in> set ch. valid_ele t e"
    and "initSets (globals_of t) bs (\<lambda>_. 0) = Some (Leaf, DPPI)" and "0 \<le> j"
  shows "\<not> compatible (globals_of t) DPPI (Z (globals_of t)) j"
proof -
  have "row_Z_empty t (\<lambda>_. 0)" by (simp add: row_Z_empty_def Val_def Let_def)
  from initSets_row_Z [OF assms(1,2) this assms(3)] assms(4)
  show ?thesis by (simp add: row_Z_empty_def compatible_def YES_def)
qed

lemmas stage1_eval = globals_of_def initLeafList_def zero_branch_def mark_def Set_def
  updatePS_def map_c_def X_def YES_def NO_def HI_def Let_def Val_def
  sumLoop.simps findTreeNode_def prob_def upto.simps empty_caches_def

lemma zero_branch_sets:
  "zero_branch_Leaf =
     [\<lparr>nl_addr = PNode PNull 1 ''X'' 0 [[1, 2]] PNull,
         nl_P = (\<lambda>_. 0)(1 := 1, 3 := 8, 2 := 130, 0 := 18),
         nl_there = (\<lambda>_. 0)(1 := 1, 3 := 1, 2 := 1, 4 := 1)\<rparr>,
      \<lparr>nl_addr = PNode PNull 2 ''Y'' 1 [[1, - 2]] PNull,
         nl_P = (\<lambda>_. 0)(2 := 128, 1 := 132, 3 := 32, 0 := 6),
         nl_there = (\<lambda>_. 0)(1 := 1, 3 := 1, 4 := 1, 2 := 1)\<rparr>]"
  "zero_branch_DPPI = (\<lambda>_. 0)(2 := 130, 1 := 133, 3 := 40, 0 := 22)"
  by (simp_all add: zero_branch_Leaf_def zero_branch_DPPI_def stage1_eval)

subsection \<open>The likelihood\<close>

text \<open>
  Claim C2. Let the nodes of the tree have pairwise distinct addresses, let the leaf
  list fit the tree, let the Hi marker \<open>Z\<close> not be compatible with \<open>j\<close> (which holds
  for the matrix that \<open>initSets\<close> builds, by \<open>initSets_no_state_Z\<close>; the loop of the
  code stops before \<open>Z\<close>), and let the caches agree
  with the specification, as the empty caches do. Then for every node of the tree and
  every \<open>i\<close>, \<open>preLikelihood\<close> and \<open>getLL\<close> return, and return the value of the
  specification: at a leaf 1 when the leaf's marker does not constrain column \<open>j\<close>
  and the leaf's bit for \<open>(i, j)\<close> otherwise, at an internal node the product over
  its existing children of the sum over the states compatible with \<open>j\<close> of
  \<open>branchProb\<close> times the likelihood of the child, a missing child giving the factor
  1. The caches they leave agree with the specification again.
\<close>


theorem preLikelihood_refines:
  assumes "distinct (addrs rt)" and "leaves_ok Leaf rt" and "\<not> compatible g DPPI (Z g) j"
    and "t \<in> set (subtrees rt)" and "cache_ok g DPPI Leaf rt c"
  shows "(\<exists>c'. preLikelihood g DPPI Leaf t i j c = Some (preLikelihood_spec g DPPI Leaf t i j, c') \<and>
              cache_ok g DPPI Leaf rt c') \<and>
         (\<exists>c'. getLL g DPPI Leaf t i j c = Some (preLikelihood_spec g DPPI Leaf t i j, c') \<and>
              cache_ok g DPPI Leaf rt c')"
  using preLikelihood_refines_aux(1) [of Leaf g DPPI j t c i]
    preLikelihood_refines_aux(3) [of Leaf g DPPI j t c i] assms by blast

theorem preLikelihood_refines_witness:
  "distinct (addrs zero_branch) \<and> leaves_ok zero_branch_Leaf zero_branch \<and>
   \<not> compatible (globals_of 2) zero_branch_DPPI (Z (globals_of 2)) 2 \<and>
   zero_branch \<in> set (subtrees zero_branch) \<and>
   cache_ok (globals_of 2) zero_branch_DPPI zero_branch_Leaf zero_branch empty_caches \<and>
   preLikelihood_spec (globals_of 2) zero_branch_DPPI zero_branch_Leaf zero_branch 1 2 = 1 / 3 - exp (- 3) / 3 \<and>
   map_option fst (preLikelihood (globals_of 2) zero_branch_DPPI zero_branch_Leaf zero_branch 1 2 empty_caches)
     = Some (1 / 3 - exp (- 3) / 3) \<and>
   map_option fst (getLL (globals_of 2) zero_branch_DPPI zero_branch_Leaf zero_branch 1 2 empty_caches)
     = Some (1 / 3 - exp (- 3) / 3)"
proof -
  have h: "distinct (addrs zero_branch)" "leaves_ok zero_branch_Leaf zero_branch"
    "\<not> compatible (globals_of 2) zero_branch_DPPI (Z (globals_of 2)) 2"
    "zero_branch \<in> set (subtrees zero_branch)"
    "cache_ok (globals_of 2) zero_branch_DPPI zero_branch_Leaf zero_branch empty_caches"
    by (simp_all add: zero_branch_sets leaves_ok_def cache_ok_def compatible_def
        zero_branch_def globals_of_def Val_def X_def YES_def Let_def findTreeNode_def empty_caches_def)
  have v: "preLikelihood_spec (globals_of 2) zero_branch_DPPI zero_branch_Leaf zero_branch 1 2
      = 1 / 3 - exp (- 3) / 3"
    by (simp add: zero_branch_sets compatible_def branchProb_def prob_def
        zero_branch_def globals_of_def Val_def X_def YES_def Let_def upto.simps)
  from preLikelihood_refines [OF h, of 1] v h show ?thesis by auto
qed


subsection \<open>The posterior probabilities: auxiliary facts\<close>

































subsection \<open>The posterior probabilities\<close>





end
